theory Spec2Isabelle
  imports Main "HOL-Library.Multiset"
begin

section \<open>The S3 upload manager: constants and machine integers\<close>

text \<open>
  The package constants of the upload manager. \<open>MaxUploadParts\<close> is an \<open>int32\<close>,
  \<open>MinUploadPartSize\<close> an \<open>int64\<close>; both are modelled as \<open>int\<close>, and the places where the
  source computes on them wrap around explicitly (\<open>int32\<close>, \<open>int64\<close> below).
\<close>

definition MaxUploadParts :: int where
  "MaxUploadParts = 10000"

definition MinUploadPartSize :: int where
  "MinUploadPartSize = 1024 * 1024 * 5"

definition DefaultUploadPartSize :: int where
  "DefaultUploadPartSize = MinUploadPartSize"

definition DefaultUploadConcurrency :: int where
  "DefaultUploadConcurrency = 5"

text \<open>Two's complement wrap-around of Go's fixed-width signed integers.\<close>

definition int32 :: "int \<Rightarrow> int" where
  "int32 x = (x + 2 ^ 31) mod 2 ^ 32 - 2 ^ 31"

definition int64 :: "int \<Rightarrow> int" where
  "int64 x = (x + 2 ^ 63) mod 2 ^ 64 - 2 ^ 63"

text \<open>Go's integer division truncates towards zero (the divisor is never zero where
  the source divides: \<open>init\<close> replaces a zero \<open>PartSize\<close> and a zero \<open>MaxUploadParts\<close>
  by their defaults before \<open>initSize\<close> runs).\<close>

definition quo :: "int \<Rightarrow> int \<Rightarrow> int" where
  "quo a b = sgn a * sgn b * (\<bar>a\<bar> div \<bar>b\<bar>)"

text \<open>The verb \<open>%d\<close> of \<open>fmt\<close>: decimal digits, with a minus sign for a negative value.\<close>

definition digit_char :: "nat \<Rightarrow> char" where
  "digit_char d = ''0123456789'' ! d"

fun digits :: "nat \<Rightarrow> string" where
  "digits n = (if n < 10 then [digit_char n] else digits (n div 10) @ [digit_char (n mod 10)])"

declare digits.simps [simp del]

definition fmt_d :: "int \<Rightarrow> string" where
  "fmt_d i = (if i < 0 then CHR ''-'' # digits (nat (- i)) else digits (nat i))"

section \<open>Errors\<close>

text \<open>
  Go's \<open>error\<close> values. \<open>EOF\<close> is the sentinel \<open>io.EOF\<close>; \<open>Opaque\<close> is an error that comes
  from outside the package (the store client, the input stream, the context);
  \<open>Errorf msg cause\<close> is \<open>fmt.Errorf\<close> with the formatted text before the verb \<open>%w\<close> and
  the wrapped cause, if any; \<open>multiUploadError\<close> is the struct of that name. A run-time
  panic of the source (a nil dereference, a channel of negative size) is the value
  \<open>Panic\<close>. A nil \<open>error\<close> is \<open>None\<close> of \<open>error option\<close>.
\<close>

datatype error =
    EOF
  | Opaque string
  | Errorf string "error option"
  | multiUploadError "error option" string
  | Panic string

fun Error :: "error \<Rightarrow> string" where
  "Error EOF = ''EOF''"
| "Error (Opaque s) = s"
| "Error (Errorf s None) = s"
| "Error (Errorf s (Some e)) = s @ Error e"
| "Error (multiUploadError None uid) = ''upload multipart failed, upload id: '' @ uid"
| "Error (multiUploadError (Some e) uid) =
     ''upload multipart failed, upload id: '' @ uid @ '', cause: '' @ Error e"
| "Error (Panic s) = s"

text \<open>The interface \<open>MultiUploadFailure\<close>: an error with the accessor \<open>UploadID()\<close>. Only
  \<open>multiUploadError\<close> implements it; \<open>UploadID e = None\<close> says that \<open>e\<close> does not satisfy
  the interface.\<close>

fun UploadID :: "error \<Rightarrow> string option" where
  "UploadID (multiUploadError cause uid) = Some uid"
| "UploadID _ = None"

fun Unwrap :: "error \<Rightarrow> error option" where
  "Unwrap (multiUploadError cause uid) = cause"
| "Unwrap (Errorf s cause) = cause"
| "Unwrap _ = None"

section \<open>Data model\<close>

type_synonym bytes = string

record UploadOutput =
  Location :: string
  VersionID :: "string option"
  OutUploadID :: string

text \<open>The configuration fields of \<open>Uploader\<close> that the upload logic reads. The field
  \<open>MaxUploadParts\<close> of the struct is \<open>cfgMaxUploadParts\<close> here (the constant has the name).\<close>

record Uploader =
  PartSize :: int
  Concurrency :: int
  LeavePartsOnError :: bool
  cfgMaxUploadParts :: int

text \<open>
  The body of the request, by the interfaces it satisfies. A sequential stream is the
  list of results its \<open>Read\<close> calls will deliver, each a block of bytes with the error
  returned along with it; once the list is used up \<open>Read\<close> returns \<open>(0, io.EOF)\<close>.
  \<^item> \<open>ReadSeekerAt len content\<close>: a \<open>readerAtSeeker\<close>; \<open>len\<close> is what \<open>seekerLen\<close> returns.
  \<^item> \<open>ReadSeeker len stream\<close>: an \<open>io.Seeker\<close> that is no \<open>io.ReaderAt\<close>.
  \<^item> \<open>Reader stream\<close>: a plain \<open>io.Reader\<close>.
\<close>

type_synonym stream = "(bytes \<times> error option) list"

datatype body =
    ReadSeekerAt "error + int" bytes
  | ReadSeeker "error + int" stream
  | Reader stream

text \<open>The internal struct \<open>uploader\<close>. \<open>nreads\<close> counts the calls of \<open>nextReader\<close>: the
  \<open>k\<close>-th call returns the cleanup closure \<open>k\<close>, so that invocations can be counted.\<close>

record uploader =
  cfg :: Uploader
  body :: body
  existingUploadID :: "string option"
  readerPos :: int
  totalSize :: int
  nreads :: nat

section \<open>The store client and the rest of the environment\<close>

text \<open>
  A request of the store client goes through the HTTP client of its options, possibly
  several times (retries). Each round trip either fails or yields a response whose
  \<open>Request.URL\<close> may be nil. A URL is its text before the query and its \<open>RawQuery\<close>.
\<close>

record URL =
  BeforeQuery :: string
  RawQuery :: string

definition URL_String :: "URL \<Rightarrow> string" where
  "URL_String u = BeforeQuery u @ (if RawQuery u = [] then [] else CHR ''?'' # RawQuery u)"

datatype http_exchange = RoundTripErr error | RoundTrip "URL option"

type_synonym 'a response = "http_exchange list \<times> (error + 'a)"

record CompletedPart =
  ETag :: "string option"
  PartNumber :: int

text \<open>
  What the code cannot decide is a parameter: the digest function, \<open>strconv.Unquote\<close>,
  the buffer pool's \<open>Get\<close> (it fails when the context is cancelled; the argument is the
  index of the \<open>nextReader\<close> call), and the answers of the store to each operation.
  \<open>ListParts\<close> is the sequence of pages the paginator delivers: it has more pages until
  the sequence is used up.
\<close>

record env =
  md5hex :: "bytes \<Rightarrow> string"
  Unquote :: "string \<Rightarrow> error + string"
  poolGet :: "nat \<Rightarrow> error option"
  PutObject :: "bytes \<Rightarrow> (string option) response"
  CreateMultipartUpload :: "(string option) response"
  ListParts :: "((int \<times> string option) list) response list"
  UploadPart :: "string \<Rightarrow> int \<Rightarrow> bytes \<Rightarrow> (string option) response"
  CompleteMultipartUpload :: "string \<Rightarrow> CompletedPart list \<Rightarrow> (string option) response"
  AbortMultipartUpload :: "string \<Rightarrow> unit response"

text \<open>The requests issued to the store, in the order they are issued.\<close>

datatype call =
    PutObject_call bytes
  | CreateMultipartUpload_call
  | ListParts_call string
  | UploadPart_call string int bytes
  | CompleteMultipartUpload_call string "CompletedPart list"
  | AbortMultipartUpload_call string

section \<open>The location recorder\<close>

text \<open>\<open>recordLocationClient.Do\<close>: after a round trip that succeeded and whose response
  names its request URL, the location is that URL without its query.\<close>

fun Do :: "string \<Rightarrow> http_exchange \<Rightarrow> string" where
  "Do location (RoundTripErr e) = location"
| "Do location (RoundTrip None) = location"
| "Do location (RoundTrip (Some url)) = URL_String (url\<lparr>RawQuery := []\<rparr>)"

text \<open>A store request made with \<open>locationRecorder.WrapClient()\<close> among its options: every
  round trip of the request passes through \<open>Do\<close>.\<close>

definition WrapClient :: "string \<Rightarrow> http_exchange list \<Rightarrow> string" where
  "WrapClient location xs = foldl Do location xs"

text \<open>The request URLs that reach the recorder during a request: those of the round
  trips that succeeded with a response that names its request.\<close>

fun observed :: "http_exchange list \<Rightarrow> URL list" where
  "observed [] = []"
| "observed (RoundTripErr e # xs) = observed xs"
| "observed (RoundTrip None # xs) = observed xs"
| "observed (RoundTrip (Some url) # xs) = url # observed xs"

section \<open>Initialisation\<close>

text \<open>\<open>seekerLen\<close> of the body, when the body is an \<open>io.Seeker\<close>.\<close>

fun seekerLen :: "body \<Rightarrow> (error + int) option" where
  "seekerLen (ReadSeekerAt l content) = Some l"
| "seekerLen (ReadSeeker l s) = Some l"
| "seekerLen (Reader s) = None"

definition initSize :: "uploader \<Rightarrow> error + uploader" where
  "initSize u0 =
     (let u = u0\<lparr>totalSize := - 1\<rparr> in
      case seekerLen (body u) of
        None \<Rightarrow> Inr u
      | Some (Inl e) \<Rightarrow> Inl e
      | Some (Inr n) \<Rightarrow>
          (let u1 = u\<lparr>totalSize := n\<rparr> in
           if int64 (quo (totalSize u1) (PartSize (cfg u1))) \<ge> cfgMaxUploadParts (cfg u1)
           then Inr (u1\<lparr>cfg := (cfg u1)\<lparr>PartSize :=
                       int64 (int64 (quo (totalSize u1) (cfgMaxUploadParts (cfg u1))) + 1)\<rparr>\<rparr>)
           else Inr u1))"

text \<open>\<open>init\<close>: the defaults, then \<open>initSize\<close>. (The buffer pool it then sizes to
  \<open>Concurrency + 1\<close> is represented by \<open>poolGet\<close> only.)\<close>

definition init :: "uploader \<Rightarrow> error + uploader" where
  "init u =
     (let c = cfg u;
          c1 = (if Concurrency c = 0 then c\<lparr>Concurrency := DefaultUploadConcurrency\<rparr> else c);
          c2 = (if PartSize c1 = 0 then c1\<lparr>PartSize := DefaultUploadPartSize\<rparr> else c1);
          c3 = (if cfgMaxUploadParts c2 = 0 then c2\<lparr>cfgMaxUploadParts := MaxUploadParts\<rparr> else c2)
      in initSize (u\<lparr>cfg := c3\<rparr>))"

section \<open>The part reader\<close>

text \<open>\<open>io.NewSectionReader(r, off, n)\<close>: the window of \<open>n\<close> bytes at offset \<open>off\<close>.\<close>

definition SectionReader :: "bytes \<Rightarrow> int \<Rightarrow> int \<Rightarrow> bytes" where
  "SectionReader content off n = take (nat n) (drop (nat off) content)"

text \<open>\<open>readFillBuf\<close> into a buffer with \<open>k\<close> bytes of room: it reads until the buffer is
  full or a \<open>Read\<close> returns an error. The result is the bytes read, the error and the
  rest of the stream. A \<open>Read\<close> delivers at most the room there is.\<close>

fun readFillBuf :: "nat \<Rightarrow> stream \<Rightarrow> bytes \<times> error option \<times> stream" where
  "readFillBuf k [] = (if k = 0 then ([], None, []) else ([], Some EOF, []))"
| "readFillBuf k ((d, e) # rest) =
     (if k = 0 then ([], None, (d, e) # rest)
      else if length d \<le> k then
        (if e \<noteq> None then (d, e, rest)
         else (case readFillBuf (k - length d) rest of (ds, e', r') \<Rightarrow> (d @ ds, e', r')))
      else (take k d, None, (drop k d, e) # rest))"

fun sequential :: "body \<Rightarrow> stream" where
  "sequential (ReadSeekerAt l content) = []"
| "sequential (ReadSeeker l s) = s"
| "sequential (Reader s) = s"

fun with_stream :: "body \<Rightarrow> stream \<Rightarrow> body" where
  "with_stream (ReadSeekerAt l content) s = ReadSeekerAt l content"
| "with_stream (ReadSeeker l s0) s = ReadSeeker l s"
| "with_stream (Reader s0) s = Reader s"

text \<open>\<open>nextReader\<close> returns the bytes of the next part, their number, the cleanup
  closure (by its index) and the error, and the uploader with its position advanced.\<close>

definition nextReader :: "env \<Rightarrow> uploader \<Rightarrow> (bytes \<times> int \<times> nat \<times> error option) \<times> uploader" where
  "nextReader e u =
     (let k = nreads u; u0 = u\<lparr>nreads := Suc k\<rparr> in
      case body u of
        ReadSeekerAt l content \<Rightarrow>
          (let bytesLeft = totalSize u - readerPos u;
               atEnd = (totalSize u \<ge> 0 \<and> bytesLeft \<le> PartSize (cfg u));
               n = (if atEnd then bytesLeft else PartSize (cfg u));
               err = (if atEnd then Some EOF else None)
           in ((SectionReader content (readerPos u) n, n, k, err),
               u0\<lparr>readerPos := readerPos u + n\<rparr>))
      | _ \<Rightarrow>
          (case poolGet e k of
             Some err \<Rightarrow> (([], 0, k, Some err), u0)
           | None \<Rightarrow>
               (case readFillBuf (nat (PartSize (cfg u))) (sequential (body u)) of
                  (part, err, r') \<Rightarrow>
                    ((part, int (length part), k, err),
                     u0\<lparr>readerPos := readerPos u + int (length part),
                        body := with_stream (body u) r'\<rparr>))))"

section \<open>The multi-part coordinator\<close>

text \<open>A chunk on its way to a worker: the bytes of its reader, its part number and
  its cleanup closure.\<close>

record chunk =
  buf :: bytes
  num :: int
  cleanup :: nat

text \<open>
  The goroutines of one upload and where each stands. The caller's goroutine runs
  \<open>multiuploader.upload\<close>: it sends a chunk on the channel, tests the loop condition, reads
  and judges the next chunk, closes the channel, then waits for the workers and
  completes. A worker runs \<open>readChunk\<close>: it receives a chunk, looks it up (and checks it,
  or reads the error register), uploads it, runs its cleanup. Each constructor is the
  point before one access to the shared state (the channel, the mutex-protected
  fields, the store).
\<close>

datatype producer =
    Sending chunk
  | Checking
  | Reading
  | Closing
  | Waiting
  | Returned "error + UploadOutput"

datatype worker =
    Receiving
  | Holding chunk
  | Uploading chunk
  | Cleaning chunk
  | Exited

text \<open>
  The struct \<open>multiuploader\<close> with what its goroutines share: \<open>ch\<close> is the buffered channel
  (closed when \<open>chClosed\<close>), \<open>location\<close> the field of the \<open>locationRecorder\<close>, \<open>pnum\<close> and \<open>perr\<close>
  the locals \<open>num\<close> and \<open>err\<close> of \<open>upload\<close>. \<open>cleaned\<close> lists the cleanup closures invoked and
  \<open>calls\<close> the requests issued, in order.
\<close>

record multiuploader =
  up :: uploader
  err :: "error option"
  uploadID :: string
  parts :: "CompletedPart list"
  eTagByPartNumber :: "int \<rightharpoonup> string"
  location :: string
  ch :: "chunk list"
  chClosed :: bool
  pnum :: int
  perr :: "error option"
  main :: producer
  workers :: "worker list"
  cleaned :: "nat list"
  calls :: "call list"

definition geterr :: "multiuploader \<Rightarrow> error option" where
  "geterr s = err s"

definition seterr :: "error \<Rightarrow> multiuploader \<Rightarrow> multiuploader" where
  "seterr e s = s\<lparr>err := Some e\<rparr>"

definition completePart :: "chunk \<Rightarrow> string option \<Rightarrow> multiuploader \<Rightarrow> multiuploader" where
  "completePart c eTag s = s\<lparr>parts := parts s @ [\<lparr>ETag = eTag, PartNumber = num c\<rparr>]\<rparr>"

definition check :: "env \<Rightarrow> chunk \<Rightarrow> string \<Rightarrow> multiuploader \<Rightarrow> error option \<times> multiuploader" where
  "check e c eTag s =
     (let sum = md5hex e (buf c) in
      if sum \<noteq> eTag
      then (Some (Errorf (''checksum did not match for chunk '' @ fmt_d (num c) @
                          '', multipart upload out of sync with local file'') None), s)
      else (None, completePart c (Some eTag) s))"

definition send :: "env \<Rightarrow> chunk \<Rightarrow> multiuploader \<Rightarrow> error option \<times> multiuploader" where
  "send e c s =
     (let s1 = s\<lparr>calls := calls s @ [UploadPart_call (uploadID s) (num c) (buf c)]\<rparr> in
      case snd (UploadPart e (uploadID s) (num c) (buf c)) of
        Inl er \<Rightarrow> (Some er, s1)
      | Inr eTag \<Rightarrow> (None, completePart c eTag s1))"

definition shouldContinue :: "Uploader \<Rightarrow> int \<Rightarrow> int \<Rightarrow> error option \<Rightarrow> bool \<times> error option" where
  "shouldContinue c part0 nextChunkLen er =
     (if er \<noteq> None \<and> er \<noteq> Some EOF
      then (False, Some (Errorf ''read multipart upload data failed, '' er))
      else if nextChunkLen = 0 then (False, None)
      else
        (let part = int32 (part0 + 1) in
         if part > cfgMaxUploadParts c \<or> part > MaxUploadParts
         then (False, Some (Errorf
                 (if part > cfgMaxUploadParts c
                  then ''exceeded total allowed configured MaxUploadParts ('' @
                       fmt_d (cfgMaxUploadParts c) @ ''). Adjust PartSize to fit in this limit''
                  else ''exceeded total allowed S3 limit MaxUploadParts ('' @
                       fmt_d MaxUploadParts @ ''). Adjust PartSize to fit in this limit'')
                 None))
         else (True, er)))"

definition fail :: "env \<Rightarrow> multiuploader \<Rightarrow> multiuploader" where
  "fail e s =
     (if LeavePartsOnError (cfg (up s)) then s
      else s\<lparr>calls := calls s @ [AbortMultipartUpload_call (uploadID s)]\<rparr>)"

text \<open>\<open>complete\<close> returns the response (nil on the failing paths) and the state.
  \<open>sort.Sort\<close> orders the parts by \<open>PartNumber\<close>; it is not stable, which shows only
  between parts of the same number.\<close>

definition complete :: "env \<Rightarrow> multiuploader \<Rightarrow> (string option) option \<times> multiuploader" where
  "complete e s =
     (if geterr s \<noteq> None then (None, fail e s)
      else
        (let s1 = s\<lparr>parts := sort_key PartNumber (parts s)\<rparr>;
             s2 = s1\<lparr>calls := calls s1 @ [CompleteMultipartUpload_call (uploadID s1) (parts s1)]\<rparr>
         in case snd (CompleteMultipartUpload e (uploadID s1) (parts s1)) of
              Inl er \<Rightarrow> (None, fail e (seterr er s2))
            | Inr v \<Rightarrow> (Some v, s2)))"

text \<open>The end of \<open>multiuploader.upload\<close>, after \<open>wg.Wait()\<close>.\<close>

definition finish :: "env \<Rightarrow> multiuploader \<Rightarrow> multiuploader" where
  "finish e s =
     (case complete e s of
        (resp, s1) \<Rightarrow>
          s1\<lparr>main := Returned
                (case geterr s1 of
                   Some er \<Rightarrow> Inl (multiUploadError (Some er) (uploadID s1))
                 | None \<Rightarrow>
                     (case resp of
                        None \<Rightarrow> Inl (Panic ''nil pointer dereference'')
                      | Some v \<Rightarrow>
                          Inr \<lparr>Location = location s1, VersionID = v,
                               OutUploadID = uploadID s1\<rparr>))\<rparr>)"

subsection \<open>One step of a goroutine\<close>

fun producer_step :: "env \<Rightarrow> producer \<Rightarrow> multiuploader \<Rightarrow> multiuploader option" where
  "producer_step e (Sending c) s =
     (if int (length (ch s)) < Concurrency (cfg (up s))
      then Some (s\<lparr>ch := ch s @ [c], main := Checking\<rparr>) else None)"
| "producer_step e Checking s =
     Some (s\<lparr>main := (if geterr s = None \<and> perr s = None then Reading else Closing)\<rparr>)"
| "producer_step e Reading s =
     (case nextReader e (up s) of
        ((reader, nextChunkLen, cl, er), u') \<Rightarrow>
          (case shouldContinue (cfg (up s)) (pnum s) nextChunkLen er of
             (False, er') \<Rightarrow>
               (let s1 = s\<lparr>up := u', perr := er', cleaned := cleaned s @ [cl]\<rparr>;
                    s2 = (case er' of Some x \<Rightarrow> seterr x s1 | None \<Rightarrow> s1)
                in Some (s2\<lparr>main := Closing\<rparr>))
           | (True, er') \<Rightarrow>
               Some (s\<lparr>up := u', perr := er', pnum := int32 (pnum s + 1),
                       main := Sending \<lparr>buf = reader, num = int32 (pnum s + 1),
                                        cleanup = cl\<rparr>\<rparr>)))"
| "producer_step e Closing s = Some (s\<lparr>chClosed := True, main := Waiting\<rparr>)"
| "producer_step e Waiting s =
     (if list_all (\<lambda>w. w = Exited) (workers s) then Some (finish e s) else None)"
| "producer_step e (Returned r) s = None"

fun worker_step :: "env \<Rightarrow> worker \<Rightarrow> multiuploader \<Rightarrow> (worker \<times> multiuploader) option" where
  "worker_step e Receiving s =
     (case ch s of
        c # rest \<Rightarrow> Some (Holding c, s\<lparr>ch := rest\<rparr>)
      | [] \<Rightarrow> if chClosed s then Some (Exited, s) else None)"
| "worker_step e (Holding c) s =
     (case eTagByPartNumber s (num c) of
        Some eTag \<Rightarrow>
          (case check e c eTag s of
             (Some er, s1) \<Rightarrow> Some (Cleaning c, seterr er s1)
           | (None, s1) \<Rightarrow> Some (Cleaning c, s1))
      | None \<Rightarrow>
          if geterr s = None then Some (Uploading c, s) else Some (Cleaning c, s))"
| "worker_step e (Uploading c) s =
     (case send e c s of
        (Some er, s1) \<Rightarrow> Some (Cleaning c, seterr er s1)
      | (None, s1) \<Rightarrow> Some (Cleaning c, s1))"
| "worker_step e (Cleaning c) s = Some (Receiving, s\<lparr>cleaned := cleaned s @ [cleanup c]\<rparr>)"
| "worker_step e Exited s = None"

datatype actor = Producer | Worker nat

fun step :: "env \<Rightarrow> actor \<Rightarrow> multiuploader \<Rightarrow> multiuploader option" where
  "step e Producer s = producer_step e (main s) s"
| "step e (Worker i) s =
     (if i < length (workers s)
      then (case worker_step e (workers s ! i) s of
              None \<Rightarrow> None
            | Some (w, s') \<Rightarrow> Some (s'\<lparr>workers := (workers s')[i := w]\<rparr>))
      else None)"

text \<open>An execution follows a schedule: the goroutine named next takes its step if it
  can, and nothing happens if it is blocked or has ended.\<close>

fun exec :: "env \<Rightarrow> actor list \<Rightarrow> multiuploader \<Rightarrow> multiuploader" where
  "exec e [] s = s"
| "exec e (a # as) s = exec e as (case step e a s of Some s' \<Rightarrow> s' | None \<Rightarrow> s)"

subsection \<open>Acquiring the session\<close>

text \<open>The loop over the parts of one page: the result is the flag \<open>repeat\<close> and the map.\<close>

fun recordParts ::
  "env \<Rightarrow> (int \<times> string option) list \<Rightarrow> (int \<rightharpoonup> string) \<Rightarrow> error + (bool \<times> (int \<rightharpoonup> string))" where
  "recordParts e [] m = Inr (False, m)"
| "recordParts e ((n, t) # ps) m =
     (if m n \<noteq> None then Inr (True, m)
      else (case t of
              None \<Rightarrow> Inl (Panic ''nil pointer dereference'')
            | Some q \<Rightarrow>
                (case Unquote e q of
                   Inl er \<Rightarrow> Inl er
                 | Inr eTag \<Rightarrow> recordParts e ps (m(n \<mapsto> eTag)))))"

fun paginate ::
  "env \<Rightarrow> ((int \<times> string option) list) response list \<Rightarrow> multiuploader \<Rightarrow>
     error option \<times> multiuploader" where
  "paginate e [] s = (None, s)"
| "paginate e ((xs, r) # pages) s =
     (let s1 = s\<lparr>location := WrapClient (location s) xs,
                calls := calls s @ [ListParts_call (uploadID s)]\<rparr> in
      case r of
        Inl er \<Rightarrow> (Some er, s1)
      | Inr ps \<Rightarrow>
          (case recordParts e ps (eTagByPartNumber s1) of
             Inl er \<Rightarrow> (Some er, s1)
           | Inr (repeat, m) \<Rightarrow>
               (if repeat then (None, s1\<lparr>eTagByPartNumber := m\<rparr>)
                else paginate e pages (s1\<lparr>eTagByPartNumber := m\<rparr>))))"

definition create :: "env \<Rightarrow> nat \<Rightarrow> multiuploader \<Rightarrow> error option \<times> multiuploader" where
  "create e cl s =
     (let s1 = s\<lparr>location := WrapClient (location s) (fst (CreateMultipartUpload e)),
                calls := calls s @ [CreateMultipartUpload_call]\<rparr> in
      case snd (CreateMultipartUpload e) of
        Inl er \<Rightarrow> (Some er, s1\<lparr>cleaned := cleaned s1 @ [cl]\<rparr>)
      | Inr None \<Rightarrow> (Some (Panic ''nil pointer dereference''), s1)
      | Inr (Some uid) \<Rightarrow> (None, s1\<lparr>uploadID := uid\<rparr>))"

text \<open>An upload has either returned, with the requests issued and the cleanups
  invoked, or its goroutines are running.\<close>

datatype start =
    Finished "error + UploadOutput" "call list" "nat list"
  | Started multiuploader

definition mu_init :: "uploader \<Rightarrow> bytes \<Rightarrow> nat \<Rightarrow> multiuploader" where
  "mu_init u firstBuf cl =
     \<lparr>up = u, err = None, uploadID = [], parts = [], eTagByPartNumber = Map.empty,
      location = [], ch = [], chClosed = False, pnum = 1, perr = None,
      main = Sending \<lparr>buf = firstBuf, num = 1, cleanup = cl\<rparr>,
      workers = replicate (nat (Concurrency (cfg u))) Receiving,
      cleaned = [], calls = []\<rparr>"

text \<open>\<open>multiuploader.upload\<close> up to the start of the workers. (Making the channel panics
  when \<open>Concurrency\<close> is negative.)\<close>

definition mu_upload :: "env \<Rightarrow> uploader \<Rightarrow> bytes \<Rightarrow> nat \<Rightarrow> start" where
  "mu_upload e u firstBuf cl =
     (case (case existingUploadID u of
              Some uid \<Rightarrow> paginate e (ListParts e) ((mu_init u firstBuf cl)\<lparr>uploadID := uid\<rparr>)
            | None \<Rightarrow> create e cl (mu_init u firstBuf cl)) of
        (Some er, s) \<Rightarrow> Finished (Inl er) (calls s) (cleaned s)
      | (None, s) \<Rightarrow>
          if Concurrency (cfg u) < 0
          then Finished (Inl (Panic ''makechan: size out of range'')) (calls s) (cleaned s)
          else Started s)"

section \<open>The single-part path and the facade\<close>

definition singlePart :: "env \<Rightarrow> uploader \<Rightarrow> bytes \<Rightarrow> nat \<Rightarrow> start" where
  "singlePart e u r cl =
     (case PutObject e r of
        (xs, Inl er) \<Rightarrow> Finished (Inl er) [PutObject_call r] [cl]
      | (xs, Inr v) \<Rightarrow>
          Finished (Inr \<lparr>Location = WrapClient [] xs, VersionID = v, OutUploadID = []\<rparr>)
            [PutObject_call r] [cl])"

definition upload :: "env \<Rightarrow> uploader \<Rightarrow> start" where
  "upload e u =
     (case init u of
        Inl er \<Rightarrow> Finished (Inl (Errorf ''unable to initialize upload: '' (Some er))) [] []
      | Inr u1 \<Rightarrow>
          if PartSize (cfg u1) < MinUploadPartSize
          then Finished (Inl (Errorf (''part size must be at least '' @
                                      fmt_d MinUploadPartSize @ '' bytes'') None)) [] []
          else
            (case nextReader e u1 of
               ((reader, n, cl, er), u2) \<Rightarrow>
                 if er = Some EOF then singlePart e u2 reader cl
                 else (case er of
                         Some x \<Rightarrow>
                           Finished (Inl (Errorf ''read upload data failed: '' (Some x))) [] [cl]
                       | None \<Rightarrow> mu_upload e u2 reader cl)))"

text \<open>\<open>Upload\<close> and \<open>ResumeUpload\<close>: the per-call options change a copy of the
  configuration; the schedule says how the goroutines interleave.\<close>

definition uploadWithSingleUploader :: "env \<Rightarrow> uploader \<Rightarrow> (Uploader \<Rightarrow> Uploader) list \<Rightarrow> start" where
  "uploadWithSingleUploader e i opts = upload e (i\<lparr>cfg := fold (\<lambda>opt c. opt c) opts (cfg i)\<rparr>)"

definition Upload :: "env \<Rightarrow> Uploader \<Rightarrow> body \<Rightarrow> (Uploader \<Rightarrow> Uploader) list \<Rightarrow> start" where
  "Upload e u input opts =
     uploadWithSingleUploader e
       \<lparr>cfg = u, body = input, existingUploadID = None, readerPos = 0, totalSize = 0,
        nreads = 0\<rparr> opts"

definition ResumeUpload ::
  "env \<Rightarrow> Uploader \<Rightarrow> body \<Rightarrow> string option \<Rightarrow> (Uploader \<Rightarrow> Uploader) list \<Rightarrow> start" where
  "ResumeUpload e u input uid opts =
     uploadWithSingleUploader e
       \<lparr>cfg = u, body = input, existingUploadID = uid, readerPos = 0, totalSize = 0,
        nreads = 0\<rparr> opts"

text \<open>Running the goroutines of a started upload, and what an upload shows.\<close>

fun run :: "env \<Rightarrow> actor list \<Rightarrow> start \<Rightarrow> start" where
  "run e sched (Finished r cs cl) = Finished r cs cl"
| "run e sched (Started s) = Started (exec e sched s)"

fun returned :: "start \<Rightarrow> (error + UploadOutput) option" where
  "returned (Finished r cs cl) = Some r"
| "returned (Started s) = (case main s of Returned r \<Rightarrow> Some r | _ \<Rightarrow> None)"

fun issued :: "start \<Rightarrow> call list" where
  "issued (Finished r cs cl) = cs"
| "issued (Started s) = calls s"

fun invoked :: "start \<Rightarrow> nat list" where
  "invoked (Finished r cs cl) = cl"
| "invoked (Started s) = cleaned s"

text \<open>Whether the upload went down the multi-part path and started its goroutines, and
  then the error register, the session, the map of the parts found in the session and
  the number of the last part the producer has numbered.\<close>

fun started :: "start \<Rightarrow> bool" where
  "started (Finished r cs cl) = False"
| "started (Started s) = True"

fun register :: "start \<Rightarrow> error option" where
  "register (Finished r cs cl) = None"
| "register (Started s) = err s"

fun session :: "start \<Rightarrow> string" where
  "session (Finished r cs cl) = []"
| "session (Started s) = uploadID s"

fun found :: "start \<Rightarrow> (int \<rightharpoonup> string)" where
  "found (Finished r cs cl) = Map.empty"
| "found (Started s) = eTagByPartNumber s"

fun numbered :: "start \<Rightarrow> int" where
  "numbered (Finished r cs cl) = 0"
| "numbered (Started s) = pnum s"


section \<open>A configuration, bodies and stores to run the uploader on\<close>

text \<open>\<open>NewUploader\<close> without options: the default configuration.\<close>

definition NewUploader :: Uploader where
  "NewUploader =
     \<lparr>PartSize = DefaultUploadPartSize, Concurrency = DefaultUploadConcurrency,
      LeavePartsOnError = False, cfgMaxUploadParts = MaxUploadParts\<rparr>"

text \<open>A \<open>bytes.Reader\<close> over \<open>n\<close> bytes: it can seek and read at an offset.\<close>

definition bytes_Reader :: "nat \<Rightarrow> body" where
  "bytes_Reader n = ReadSeekerAt (Inr (int n)) (replicate n (CHR ''a''))"

text \<open>\<open>strconv.Unquote\<close> on a text in double quotes that needs no escapes.\<close>

definition quoted :: "string \<Rightarrow> string" where
  "quoted s = CHR 0x22 # s @ [CHR 0x22]"

definition unquote_plain :: "string \<Rightarrow> error + string" where
  "unquote_plain s =
     (if 2 \<le> length s \<and> hd s = CHR 0x22 \<and> last s = CHR 0x22
      then Inr (butlast (tl s)) else Inl (Opaque ''invalid syntax''))"

definition object_url :: "string \<Rightarrow> URL" where
  "object_url q = \<lparr>BeforeQuery = ''https://bucket.s3.amazonaws.com/key'', RawQuery = q\<rparr>"

text \<open>A store that accepts every request. Every digest is \<open>''d0''\<close>; the session it
  creates is \<open>''U''\<close>, and it lists two parts of that digest for a session to resume.\<close>

definition store_ok :: env where
  "store_ok =
     \<lparr>md5hex = (\<lambda>b. ''d0''),
      Unquote = unquote_plain,
      poolGet = (\<lambda>k. None),
      PutObject = (\<lambda>b. ([RoundTrip (Some (object_url ''x-id=PutObject''))], Inr None)),
      CreateMultipartUpload = ([RoundTrip (Some (object_url ''uploads=''))], Inr (Some ''U'')),
      ListParts = [([RoundTrip (Some (object_url ''uploadId=U''))],
                    Inr [(1, Some (quoted ''d0'')), (2, Some (quoted ''d0''))])],
      UploadPart = (\<lambda>uid n b. ([RoundTrip (Some (object_url ''partNumber=n''))],
                                 Inr (Some ''e0''))),
      CompleteMultipartUpload =
        (\<lambda>uid ps. ([RoundTrip (Some \<lparr>BeforeQuery = ''https://s3.eu-west-1.amazonaws.com/bucket/key'',
                                        RawQuery = ''uploadId=U''\<rparr>)], Inr (Some ''v1''))),
      AbortMultipartUpload = (\<lambda>uid. ([], Inr ()))\<rparr>"

text \<open>The same store when the local bytes have another digest than the parts listed,
  when it refuses to create a session, when listing the parts fails, and when it
  refuses every part.\<close>

definition store_mismatch :: env where
  "store_mismatch = store_ok\<lparr>md5hex := (\<lambda>b. ''d1'')\<rparr>"

definition store_denied :: env where
  "store_denied = store_ok\<lparr>CreateMultipartUpload := ([], Inl (Opaque ''AccessDenied''))\<rparr>"

definition store_unlisted :: env where
  "store_unlisted = store_ok\<lparr>ListParts := [([], Inl (Opaque ''RequestTimeout''))]\<rparr>"

definition store_slow :: env where
  "store_slow = store_ok\<lparr>UploadPart := (\<lambda>uid n b. ([], Inl (Opaque ''SlowDown'')))\<rparr>"

text \<open>
  Schedules for an upload of two parts with five workers. In \<open>two_parts\<close> the producer
  queues both chunks, worker 0 takes the first and worker 1 the second, worker 1
  finishes before worker 0, the producer closes the channel, the workers exit and the
  producer completes. \<open>both_taken\<close> stops when worker 0 has dealt with its chunk and
  worker 1 still holds the second; \<open>the_rest\<close> goes on from there to the end.
\<close>

definition two_parts :: "actor list" where
  "two_parts =
     [Producer, Producer, Producer, Producer, Worker 0, Worker 1,
      Worker 1, Worker 1, Worker 0, Worker 0, Worker 0, Worker 1,
      Producer, Producer, Worker 0, Worker 1, Worker 2, Worker 3, Worker 4, Producer]"

definition both_taken :: "actor list" where
  "both_taken = [Producer, Producer, Producer, Producer, Worker 0, Worker 1, Worker 0]"

definition the_rest :: "actor list" where
  "the_rest =
     [Worker 1, Worker 0, Worker 1, Producer, Producer,
      Worker 0, Worker 1, Worker 2, Worker 3, Worker 4, Producer]"

section \<open>Where the chunks are\<close>

text \<open>The chunks that are still to be checked or uploaded: the one the producer is
  sending, those in the channel and those a worker holds before its upload is over.\<close>

fun sending :: "producer \<Rightarrow> chunk list" where
  "sending (Sending c) = [c]"
| "sending _ = []"

fun held :: "worker \<Rightarrow> chunk list" where
  "held (Holding c) = [c]"
| "held (Uploading c) = [c]"
| "held _ = []"

definition pending :: "multiuploader \<Rightarrow> chunk list" where
  "pending s = sending (main s) @ ch s @ concat (map held (workers s))"

fun has_returned :: "producer \<Rightarrow> bool" where
  "has_returned (Returned r) = True"
| "has_returned _ = False"

text \<open>The control state: the channel is closed exactly when the producer has left its
  loop; a worker exits only when the channel is closed and empty; the producer has got
  past its first send only if there is a worker; when it has returned, all workers have
  exited.\<close>

definition control_inv :: "multiuploader \<Rightarrow> bool" where
  "control_inv s \<longleftrightarrow>
     (chClosed s \<longleftrightarrow> main s = Waiting \<or> has_returned (main s)) \<and>
     (Exited \<in> set (workers s) \<longrightarrow> chClosed s \<and> ch s = []) \<and>
     (sending (main s) \<noteq> [] \<or> workers s \<noteq> []) \<and>
     length (workers s) = nat (Concurrency (cfg (up s))) \<and>
     (has_returned (main s) \<longrightarrow> list_all (\<lambda>w. w = Exited) (workers s))"

text \<open>The part numbers: as long as no error is recorded, the numbers of the completed
  parts and of the pending chunks together are 1 to \<open>num\<close>, each once.\<close>

definition parts_inv :: "multiuploader \<Rightarrow> bool" where
  "parts_inv s \<longleftrightarrow>
     1 \<le> pnum s \<and> pnum s \<le> MaxUploadParts \<and>
     (err s = None \<longrightarrow>
        mset (map PartNumber (parts s)) + mset (map num (pending s)) = mset [1..pnum s])"

text \<open>The uploads: a pending chunk has a number from 1 to \<open>num\<close>; a chunk being
  uploaded, and every \<open>UploadPart\<close> request issued, is for a part number that
  \<open>eTagByPartNumber\<close> does not hold.\<close>

definition sends_inv :: "multiuploader \<Rightarrow> bool" where
  "sends_inv s \<longleftrightarrow>
     (\<forall>c \<in> set (pending s). 1 \<le> num c \<and> num c \<le> pnum s) \<and>
     (\<forall>c. Uploading c \<in> set (workers s) \<longrightarrow> eTagByPartNumber s (num c) = None) \<and>
     (\<forall>uid n b. UploadPart_call uid n b \<in> set (calls s) \<longrightarrow>
        1 \<le> n \<and> n \<le> pnum s \<and> eTagByPartNumber s n = None)"

text \<open>The result: an output is returned only with an empty error register, after a
  \<open>CompleteMultipartUpload\<close> request whose manifest is \<open>parts\<close>, numbered 1 to \<open>num\<close> in
  order; an error is returned as a \<open>multiUploadError\<close> around the register's content.\<close>

definition result_inv :: "multiuploader \<Rightarrow> bool" where
  "result_inv s \<longleftrightarrow>
     (\<forall>out. main s = Returned (Inr out) \<longrightarrow>
        err s = None \<and>
        (\<exists>cs. calls s = cs @ [CompleteMultipartUpload_call (uploadID s) (parts s)]) \<and>
        map PartNumber (parts s) = [1..pnum s] \<and>
        Location out = location s \<and> OutUploadID out = uploadID s) \<and>
     (\<forall>x. main s = Returned (Inl x) \<longrightarrow>
        (\<exists>er. err s = Some er \<and> x = multiUploadError (Some er) (uploadID s)))"

text \<open>All four invariants together.\<close>

definition inv_all :: "multiuploader \<Rightarrow> bool" where
  "inv_all s \<longleftrightarrow> control_inv s \<and> parts_inv s \<and> sends_inv s \<and> result_inv s"


text \<open>The cleanup closures: a worker owns the chunk it holds until it has run the
  chunk's cleanup. The closures invoked and those of the chunks still owned by the
  producer, the channel or a worker are together the closures that \<open>nextReader\<close> has
  returned, each once (\<open>k\<close> is the count of \<open>nextReader\<close> calls at the start).\<close>

fun owns :: "worker \<Rightarrow> chunk list" where
  "owns (Holding c) = [c]"
| "owns (Uploading c) = [c]"
| "owns (Cleaning c) = [c]"
| "owns _ = []"

definition owned :: "multiuploader \<Rightarrow> chunk list" where
  "owned s = sending (main s) @ ch s @ concat (map owns (workers s))"

definition cleanup_inv :: "nat \<Rightarrow> multiuploader \<Rightarrow> bool" where
  "cleanup_inv k s \<longleftrightarrow>
     k \<le> nreads (up s) \<and>
     mset (cleaned s) + mset (map cleanup (owned s)) = mset [k..<nreads (up s)]"

section \<open>Arithmetic and formatting facts\<close>

lemma fmt_d_MinUploadPartSize: "fmt_d MinUploadPartSize = ''5242880''"
  by (simp add: fmt_d_def MinUploadPartSize_def digits.simps digit_char_def)

lemma fmt_d_MaxUploadParts: "fmt_d MaxUploadParts = ''10000''"
  by (simp add: fmt_d_def MaxUploadParts_def digits.simps digit_char_def)


lemma int32_id: "- (2 ^ 31) \<le> x \<Longrightarrow> x < 2 ^ 31 \<Longrightarrow> int32 x = x"
  unfolding int32_def by (simp add: mod_pos_pos_trivial)






section \<open>The steps of the goroutines, case by case\<close>

lemma exec_append: "exec e (xs @ ys) s = exec e ys (exec e xs s)"
  by (induction xs arbitrary: s) simp_all

lemma exec_invariant:
  assumes "P s"
    and "\<And>a t t'. P t \<Longrightarrow> step e a t = Some t' \<Longrightarrow> P t'"
  shows "P (exec e sched s)"
  using assms(1)
proof (induction sched arbitrary: s)
  case Nil
  then show ?case by simp
next
  case (Cons a sched)
  show ?case
  proof (cases "step e a s")
    case None
    with Cons show ?thesis by simp
  next
    case (Some t)
    with Cons.prems have "P t" by (simp add: assms(2))
    with Cons.IH Some show ?thesis by simp
  qed
qed

lemma fail_fields:
  "up (fail e s) = up s" "err (fail e s) = err s" "uploadID (fail e s) = uploadID s"
  "parts (fail e s) = parts s" "eTagByPartNumber (fail e s) = eTagByPartNumber s"
  "location (fail e s) = location s" "ch (fail e s) = ch s" "chClosed (fail e s) = chClosed s"
  "pnum (fail e s) = pnum s" "perr (fail e s) = perr s" "main (fail e s) = main s"
  "workers (fail e s) = workers s" "cleaned (fail e s) = cleaned s"
  by (simp_all add: fail_def)

lemma fail_calls:
  "calls (fail e s) = calls s \<or> calls (fail e s) = calls s @ [AbortMultipartUpload_call (uploadID s)]"
  by (simp add: fail_def)

text \<open>The three ways \<open>multiuploader.upload\<close> ends after the workers have exited.\<close>

lemma finish_cases [case_names Failed CompleteFailed Completed]:
  obtains
    (Failed) er where "err s = Some er"
      "finish e s = (fail e s)\<lparr>main := Returned (Inl (multiUploadError (Some er) (uploadID s)))\<rparr>"
  | (CompleteFailed) er where "err s = None"
      "snd (CompleteMultipartUpload e (uploadID s) (sort_key PartNumber (parts s))) = Inl er"
      "finish e s =
         (fail e (s\<lparr>err := Some er, parts := sort_key PartNumber (parts s),
                    calls := calls s @ [CompleteMultipartUpload_call (uploadID s)
                                          (sort_key PartNumber (parts s))]\<rparr>))
         \<lparr>main := Returned (Inl (multiUploadError (Some er) (uploadID s)))\<rparr>"
  | (Completed) v where "err s = None"
      "snd (CompleteMultipartUpload e (uploadID s) (sort_key PartNumber (parts s))) = Inr v"
      "finish e s =
         s\<lparr>parts := sort_key PartNumber (parts s),
           calls := calls s @ [CompleteMultipartUpload_call (uploadID s)
                                 (sort_key PartNumber (parts s))],
           main := Returned (Inr \<lparr>Location = location s, VersionID = v,
                                  OutUploadID = uploadID s\<rparr>)\<rparr>"
proof (cases "err s")
  case (Some er)
  then have "finish e s = (fail e s)\<lparr>main := Returned (Inl (multiUploadError (Some er) (uploadID s)))\<rparr>"
    by (simp add: finish_def complete_def geterr_def fail_fields)
  with Some show ?thesis by (rule Failed)
next
  case None
  show ?thesis
  proof (cases "snd (CompleteMultipartUpload e (uploadID s) (sort_key PartNumber (parts s)))")
    case (Inl er)
    with None have "finish e s =
         (fail e (s\<lparr>err := Some er, parts := sort_key PartNumber (parts s),
                    calls := calls s @ [CompleteMultipartUpload_call (uploadID s)
                                          (sort_key PartNumber (parts s))]\<rparr>))
         \<lparr>main := Returned (Inl (multiUploadError (Some er) (uploadID s)))\<rparr>"
      by (simp add: finish_def complete_def geterr_def seterr_def fail_def Let_def)
    with None Inl show ?thesis by (rule CompleteFailed)
  next
    case (Inr v)
    with None have "finish e s =
         s\<lparr>parts := sort_key PartNumber (parts s),
           calls := calls s @ [CompleteMultipartUpload_call (uploadID s)
                                 (sort_key PartNumber (parts s))],
           main := Returned (Inr \<lparr>Location = location s, VersionID = v,
                                  OutUploadID = uploadID s\<rparr>)\<rparr>"
      by (simp add: finish_def complete_def geterr_def Let_def)
    with None Inr show ?thesis by (rule Completed)
  qed
qed

lemma producer_step_cases
  [consumes 1, case_names Send Check Stop Next Close Finish]:
  assumes "producer_step e (main s) s = Some s'"
  obtains
    (Send) c where "main s = Sending c" "int (length (ch s)) < Concurrency (cfg (up s))"
      "s' = s\<lparr>ch := ch s @ [c], main := Checking\<rparr>"
  | (Check) "main s = Checking"
      "s' = s\<lparr>main := (if err s = None \<and> perr s = None then Reading else Closing)\<rparr>"
  | (Stop) r n cl er u' er' where "main s = Reading"
      "nextReader e (up s) = ((r, n, cl, er), u')"
      "shouldContinue (cfg (up s)) (pnum s) n er = (False, er')"
      "s' = s\<lparr>up := u', err := (case er' of Some x \<Rightarrow> Some x | None \<Rightarrow> err s),
              perr := er', main := Closing, cleaned := cleaned s @ [cl]\<rparr>"
  | (Next) r n cl er u' er' where "main s = Reading"
      "nextReader e (up s) = ((r, n, cl, er), u')"
      "shouldContinue (cfg (up s)) (pnum s) n er = (True, er')"
      "s' = s\<lparr>up := u', pnum := int32 (pnum s + 1), perr := er',
              main := Sending \<lparr>buf = r, num = int32 (pnum s + 1), cleanup = cl\<rparr>\<rparr>"
  | (Close) "main s = Closing" "s' = s\<lparr>chClosed := True, main := Waiting\<rparr>"
  | (Finish) "main s = Waiting" "list_all (\<lambda>w. w = Exited) (workers s)" "s' = finish e s"
proof (cases "main s")
  case (Sending c)
  with assms show ?thesis by (intro Send [of c]) (simp_all split: if_splits)
next
  case Checking
  with assms show ?thesis by (intro Check) (auto simp: geterr_def)
next
  case Reading
  obtain r n cl er u' where nr: "nextReader e (up s) = ((r, n, cl, er), u')"
    by (cases "nextReader e (up s)") auto
  obtain ok er' where sc: "shouldContinue (cfg (up s)) (pnum s) n er = (ok, er')"
    by (cases "shouldContinue (cfg (up s)) (pnum s) n er")
  show ?thesis
  proof (cases ok)
    case True
    with assms Reading nr sc show ?thesis by (intro Next [of r n cl er u' er']) auto
  next
    case False
    with assms Reading nr sc show ?thesis
      by (intro Stop [of r n cl er u' er']) (auto simp: seterr_def Let_def split: option.splits)
  qed
next
  case Closing
  with assms show ?thesis by (intro Close) auto
next
  case Waiting
  with assms show ?thesis by (intro Finish) (auto split: if_splits)
next
  case (Returned r)
  with assms show ?thesis by simp
qed

lemma worker_step_cases
  [consumes 1, case_names Recv Exit CheckOk CheckBad ToUpload Skip UploadOk UploadBad Clean]:
  assumes "worker_step e w s = Some (w', s')"
  obtains
    (Recv) c rest where "w = Receiving" "ch s = c # rest" "w' = Holding c" "s' = s\<lparr>ch := rest\<rparr>"
  | (Exit) "w = Receiving" "ch s = []" "chClosed s" "w' = Exited" "s' = s"
  | (CheckOk) c eTag where "w = Holding c" "eTagByPartNumber s (num c) = Some eTag"
      "md5hex e (buf c) = eTag" "w' = Cleaning c"
      "s' = s\<lparr>parts := parts s @ [\<lparr>ETag = Some eTag, PartNumber = num c\<rparr>]\<rparr>"
  | (CheckBad) c eTag where "w = Holding c" "eTagByPartNumber s (num c) = Some eTag"
      "md5hex e (buf c) \<noteq> eTag" "w' = Cleaning c"
      "s' = s\<lparr>err := Some (Errorf (''checksum did not match for chunk '' @ fmt_d (num c) @
                   '', multipart upload out of sync with local file'') None)\<rparr>"
  | (ToUpload) c where "w = Holding c" "eTagByPartNumber s (num c) = None" "err s = None"
      "w' = Uploading c" "s' = s"
  | (Skip) c where "w = Holding c" "eTagByPartNumber s (num c) = None" "err s \<noteq> None"
      "w' = Cleaning c" "s' = s"
  | (UploadOk) c eTag where "w = Uploading c"
      "snd (UploadPart e (uploadID s) (num c) (buf c)) = Inr eTag" "w' = Cleaning c"
      "s' = s\<lparr>parts := parts s @ [\<lparr>ETag = eTag, PartNumber = num c\<rparr>],
              calls := calls s @ [UploadPart_call (uploadID s) (num c) (buf c)]\<rparr>"
  | (UploadBad) c er where "w = Uploading c"
      "snd (UploadPart e (uploadID s) (num c) (buf c)) = Inl er" "w' = Cleaning c"
      "s' = s\<lparr>err := Some er,
              calls := calls s @ [UploadPart_call (uploadID s) (num c) (buf c)]\<rparr>"
  | (Clean) c where "w = Cleaning c" "w' = Receiving"
      "s' = s\<lparr>cleaned := cleaned s @ [cleanup c]\<rparr>"
proof (cases w)
  case Receiving
  with assms show ?thesis
    by (cases "ch s") (auto intro: Recv Exit split: if_splits)
next
  case (Holding c)
  show ?thesis
  proof (cases "eTagByPartNumber s (num c)")
    case None
    with assms Holding show ?thesis
      by (cases "err s = None") (auto intro: ToUpload Skip simp: geterr_def)
  next
    case (Some eTag)
    with assms Holding show ?thesis
      by (cases "md5hex e (buf c) = eTag")
        (auto intro: CheckOk CheckBad simp: check_def completePart_def seterr_def)
  qed
next
  case (Uploading c)
  with assms show ?thesis
    by (cases "snd (UploadPart e (uploadID s) (num c) (buf c))")
      (auto intro: UploadOk UploadBad simp: send_def completePart_def seterr_def Let_def)
next
  case (Cleaning c)
  with assms show ?thesis by (auto intro: Clean)
next
  case Exited
  with assms show ?thesis by simp
qed

lemma step_Worker:
  assumes "step e (Worker i) s = Some s'"
  obtains w' t where "i < length (workers s)" "worker_step e (workers s ! i) s = Some (w', t)"
    "s' = t\<lparr>workers := (workers t)[i := w']\<rparr>"
  using assms by (auto split: if_splits option.splits)

text \<open>Every step of an execution is one of these.\<close>

lemma step_cases
  [consumes 1, case_names Send Check Stop Next Close Finish
     Recv Exit CheckOk CheckBad ToUpload Skip UploadOk UploadBad Clean]:
  assumes "step e a s = Some s'"
  obtains
    (Send) c where "a = Producer" "main s = Sending c"
      "int (length (ch s)) < Concurrency (cfg (up s))"
      "s' = s\<lparr>ch := ch s @ [c], main := Checking\<rparr>"
  | (Check) "a = Producer" "main s = Checking"
      "s' = s\<lparr>main := (if err s = None \<and> perr s = None then Reading else Closing)\<rparr>"
  | (Stop) r n cl er u' er' where "a = Producer" "main s = Reading"
      "nextReader e (up s) = ((r, n, cl, er), u')"
      "shouldContinue (cfg (up s)) (pnum s) n er = (False, er')"
      "s' = s\<lparr>up := u', err := (case er' of Some x \<Rightarrow> Some x | None \<Rightarrow> err s),
              perr := er', main := Closing, cleaned := cleaned s @ [cl]\<rparr>"
  | (Next) r n cl er u' er' where "a = Producer" "main s = Reading"
      "nextReader e (up s) = ((r, n, cl, er), u')"
      "shouldContinue (cfg (up s)) (pnum s) n er = (True, er')"
      "s' = s\<lparr>up := u', pnum := int32 (pnum s + 1), perr := er',
              main := Sending \<lparr>buf = r, num = int32 (pnum s + 1), cleanup = cl\<rparr>\<rparr>"
  | (Close) "a = Producer" "main s = Closing" "s' = s\<lparr>chClosed := True, main := Waiting\<rparr>"
  | (Finish) "a = Producer" "main s = Waiting" "list_all (\<lambda>w. w = Exited) (workers s)"
      "s' = finish e s"
  | (Recv) i c rest where "a = Worker i" "i < length (workers s)" "workers s ! i = Receiving"
      "ch s = c # rest" "s' = s\<lparr>ch := rest, workers := (workers s)[i := Holding c]\<rparr>"
  | (Exit) i where "a = Worker i" "i < length (workers s)" "workers s ! i = Receiving"
      "ch s = []" "chClosed s" "s' = s\<lparr>workers := (workers s)[i := Exited]\<rparr>"
  | (CheckOk) i c eTag where "a = Worker i" "i < length (workers s)"
      "workers s ! i = Holding c" "eTagByPartNumber s (num c) = Some eTag"
      "md5hex e (buf c) = eTag"
      "s' = s\<lparr>parts := parts s @ [\<lparr>ETag = Some eTag, PartNumber = num c\<rparr>],
              workers := (workers s)[i := Cleaning c]\<rparr>"
  | (CheckBad) i c eTag where "a = Worker i" "i < length (workers s)"
      "workers s ! i = Holding c" "eTagByPartNumber s (num c) = Some eTag"
      "md5hex e (buf c) \<noteq> eTag"
      "s' = s\<lparr>err := Some (Errorf (''checksum did not match for chunk '' @ fmt_d (num c) @
                   '', multipart upload out of sync with local file'') None),
              workers := (workers s)[i := Cleaning c]\<rparr>"
  | (ToUpload) i c where "a = Worker i" "i < length (workers s)"
      "workers s ! i = Holding c" "eTagByPartNumber s (num c) = None" "err s = None"
      "s' = s\<lparr>workers := (workers s)[i := Uploading c]\<rparr>"
  | (Skip) i c where "a = Worker i" "i < length (workers s)"
      "workers s ! i = Holding c" "eTagByPartNumber s (num c) = None" "err s \<noteq> None"
      "s' = s\<lparr>workers := (workers s)[i := Cleaning c]\<rparr>"
  | (UploadOk) i c eTag where "a = Worker i" "i < length (workers s)"
      "workers s ! i = Uploading c"
      "snd (UploadPart e (uploadID s) (num c) (buf c)) = Inr eTag"
      "s' = s\<lparr>parts := parts s @ [\<lparr>ETag = eTag, PartNumber = num c\<rparr>],
              workers := (workers s)[i := Cleaning c],
              calls := calls s @ [UploadPart_call (uploadID s) (num c) (buf c)]\<rparr>"
  | (UploadBad) i c er where "a = Worker i" "i < length (workers s)"
      "workers s ! i = Uploading c"
      "snd (UploadPart e (uploadID s) (num c) (buf c)) = Inl er"
      "s' = s\<lparr>err := Some er, workers := (workers s)[i := Cleaning c],
              calls := calls s @ [UploadPart_call (uploadID s) (num c) (buf c)]\<rparr>"
  | (Clean) i c where "a = Worker i" "i < length (workers s)" "workers s ! i = Cleaning c"
      "s' = s\<lparr>workers := (workers s)[i := Receiving], cleaned := cleaned s @ [cleanup c]\<rparr>"
proof (cases a)
  case Producer
  with assms have "producer_step e (main s) s = Some s'" by simp
  then show ?thesis
  proof (cases rule: producer_step_cases)
    case (Send c) with Producer show ?thesis by (intro that(1) [of c]) simp_all
  next
    case Check with Producer show ?thesis by (intro that(2)) simp_all
  next
    case (Stop r n cl er u' er') with Producer show ?thesis
      by (intro that(3) [of r n cl er u' er']) simp_all
  next
    case (Next r n cl er u' er') with Producer show ?thesis
      by (intro that(4) [of r n cl er u' er']) simp_all
  next
    case Close with Producer show ?thesis by (intro that(5)) simp_all
  next
    case Finish with Producer show ?thesis by (intro that(6)) simp_all
  qed
next
  case (Worker i)
  with assms have "step e (Worker i) s = Some s'" by simp
  then obtain w' t where i: "i < length (workers s)"
    and w: "worker_step e (workers s ! i) s = Some (w', t)"
    and s': "s' = t\<lparr>workers := (workers t)[i := w']\<rparr>"
    by (rule step_Worker)
  from w show ?thesis
  proof (cases rule: worker_step_cases)
    case (Recv c rest) with Worker i s' show ?thesis by (intro that(7) [of i c rest]) simp_all
  next
    case Exit with Worker i s' show ?thesis by (intro that(8) [of i]) simp_all
  next
    case (CheckOk c eTag) with Worker i s' show ?thesis
      by (intro that(9) [of i c eTag]) simp_all
  next
    case (CheckBad c eTag) with Worker i s' show ?thesis
      by (intro that(10) [of i c eTag]) simp_all
  next
    case (ToUpload c) with Worker i s' show ?thesis by (intro that(11) [of i c]) simp_all
  next
    case (Skip c) with Worker i s' show ?thesis by (intro that(12) [of i c]) simp_all
  next
    case (UploadOk c eTag) with Worker i s' show ?thesis
      by (intro that(13) [of i c eTag]) simp_all
  next
    case (UploadBad c er) with Worker i s' show ?thesis
      by (intro that(14) [of i c er]) simp_all
  next
    case (Clean c) with Worker i s' show ?thesis by (intro that(15) [of i c]) simp_all
  qed
qed

lemma nextReader_cfg: "nextReader e u = (x, u') \<Longrightarrow> cfg u' = cfg u"
  by (auto simp: nextReader_def Let_def split: body.splits option.splits prod.splits)

lemma nextReader_existingUploadID:
  "nextReader e u = (x, u') \<Longrightarrow> existingUploadID u' = existingUploadID u"
  by (auto simp: nextReader_def Let_def split: body.splits option.splits prod.splits)

lemma nextReader_nreads: "nextReader e u = ((r, n, cl, er), u') \<Longrightarrow> cl = nreads u \<and> nreads u' = Suc (nreads u)"
  by (auto simp: nextReader_def Let_def split: body.splits option.splits prod.splits)

text \<open>What no step changes.\<close>

lemma step_frame:
  assumes "step e a s = Some s'"
  shows "uploadID s' = uploadID s \<and> eTagByPartNumber s' = eTagByPartNumber s
       \<and> location s' = location s \<and> cfg (up s') = cfg (up s)
       \<and> length (workers s') = length (workers s)"
  using assms
proof (cases rule: step_cases)
  case Finish
  then show ?thesis by (cases rule: finish_cases [where s = s and e = e]) (simp_all add: fail_fields)
qed (simp_all add: nextReader_cfg)

text \<open>The error register is never emptied: \<open>seterr\<close> is only called with an error.\<close>

lemma step_err_mono:
  assumes "step e a s = Some s'" "err s \<noteq> None"
  shows "err s' \<noteq> None"
  using assms
proof (cases rule: step_cases)
  case Finish
  then show ?thesis using assms(2)
    by (cases rule: finish_cases [where s = s and e = e]) (simp_all add: fail_fields)
qed (auto split: option.splits)

section \<open>Invariants of the executions\<close>

lemma held_update_same:
  "i < length ws \<Longrightarrow> held (ws ! i) = held w \<Longrightarrow>
     concat (map held (ws[i := w])) = concat (map held ws)"
  by (simp add: map_update list_update_same_conv [THEN iffD2])

lemma mset_concat_update:
  "i < length ws \<Longrightarrow>
     mset (concat (map f (ws[i := w]))) + mset (f (ws ! i)) = mset (concat (map f ws)) + mset (f w)"
proof (induction ws arbitrary: i)
  case Nil
  then show ?case by simp
next
  case (Cons a ws)
  then show ?case by (cases i) (simp_all add: ac_simps)
qed

lemma held_update_take:
  assumes "i < length ws" "held (ws ! i) = []"
  shows "mset (concat (map held (ws[i := w]))) = mset (held w) + mset (concat (map held ws))"
  using mset_concat_update [OF assms(1), of held w] assms(2) by (simp add: ac_simps)

lemma held_update_drop:
  assumes "i < length ws" "held w = []"
  shows "mset (concat (map held ws)) = mset (held (ws ! i)) + mset (concat (map held (ws[i := w])))"
  using mset_concat_update [OF assms(1), of held w] assms(2) by (simp add: ac_simps)

lemma upto_snoc: "(1::int) \<le> n + 1 \<Longrightarrow> [1..n + 1] = [1..n] @ [n + 1]"
  using upto_rec2 [of 1 "n + 1"] by simp

lemma shouldContinue_True:
  assumes "shouldContinue c p n er = (True, er')" "- (2 ^ 31) \<le> p" "p < 2 ^ 31 - 1"
  shows "er' = er \<and> (er = None \<or> er = Some EOF) \<and> n \<noteq> 0 \<and> int32 (p + 1) = p + 1
       \<and> p + 1 \<le> cfgMaxUploadParts c \<and> p + 1 \<le> MaxUploadParts"
proof -
  have "int32 (p + 1) = p + 1" using assms(2,3) by (simp add: int32_id)
  with assms(1) show ?thesis
    by (auto simp: shouldContinue_def Let_def split: if_splits)
qed

lemma parts_inv_step:
  assumes "step e a s = Some s'" "parts_inv s"
  shows "parts_inv s'"
  using assms(1)
proof (cases rule: step_cases)
  case (Send c)
  with assms(2) show ?thesis by (simp add: parts_inv_def pending_def ac_simps)
next
  case Check
  with assms(2) show ?thesis by (simp add: parts_inv_def pending_def)
next
  case (Stop r n cl er u' er')
  with assms(2) show ?thesis by (auto simp: parts_inv_def pending_def split: option.splits)
next
  case (Next r n cl er u' er')
  from assms(2) have p: "1 \<le> pnum s" "pnum s \<le> MaxUploadParts" by (simp_all add: parts_inv_def)
  then have "- (2 ^ 31) \<le> pnum s" "pnum s < 2 ^ 31 - 1" by (simp_all add: MaxUploadParts_def)
  with Next(4) have sc: "int32 (pnum s + 1) = pnum s + 1" "pnum s + 1 \<le> MaxUploadParts"
    using shouldContinue_True by blast+
  with Next assms(2) p show ?thesis
    by (simp add: parts_inv_def pending_def upto_snoc)
next
  case Close
  with assms(2) show ?thesis by (simp add: parts_inv_def pending_def)
next
  case Finish
  with assms(2) show ?thesis
    by (cases rule: finish_cases [where s = s and e = e])
       (simp_all add: fail_fields parts_inv_def pending_def)
next
  case (Recv i c rest)
  with assms(2) show ?thesis
    by (simp add: parts_inv_def pending_def held_update_take ac_simps)
next
  case (Exit i)
  with assms(2) show ?thesis by (simp add: parts_inv_def pending_def held_update_same)
next
  case (CheckOk i c eTag)
  with held_update_drop [of i "workers s" "Cleaning c"] assms(2) show ?thesis
    by (simp add: parts_inv_def pending_def ac_simps)
next
  case (CheckBad i c eTag)
  with assms(2) show ?thesis by (simp add: parts_inv_def)
next
  case (ToUpload i c)
  with assms(2) show ?thesis by (simp add: parts_inv_def pending_def held_update_same)
next
  case (Skip i c)
  with assms(2) show ?thesis by (auto simp: parts_inv_def)
next
  case (UploadOk i c eTag)
  with held_update_drop [of i "workers s" "Cleaning c"] assms(2) show ?thesis
    by (simp add: parts_inv_def pending_def ac_simps)
next
  case (UploadBad i c er)
  with assms(2) show ?thesis by (simp add: parts_inv_def)
next
  case (Clean i c)
  with assms(2) show ?thesis by (simp add: parts_inv_def pending_def held_update_same)
qed

lemma control_inv_worker:
  assumes inv: "control_inv s" and i: "i < length (workers s)"
    and w0: "workers s ! i \<noteq> Exited"
    and w: "w = Exited \<longrightarrow> chClosed s \<and> ch s' = []"
    and same: "chClosed s' = chClosed s" "main s' = main s" "cfg (up s') = cfg (up s)"
      "workers s' = (workers s)[i := w]"
    and ch: "Exited \<in> set (workers s) \<longrightarrow> ch s' = []"
  shows "control_inv s'"
proof -
  have nr: "\<not> has_returned (main s)"
  proof
    assume "has_returned (main s)"
    with inv have "list_all (\<lambda>w. w = Exited) (workers s)" by (simp add: control_inv_def)
    with i have "workers s ! i = Exited" by (simp add: list_all_length)
    with w0 show False by simp
  qed
  have ex: "Exited \<in> set ((workers s)[i := w]) \<Longrightarrow> chClosed s \<and> ch s' = []"
  proof -
    assume "Exited \<in> set ((workers s)[i := w])"
    then have "Exited = w \<or> Exited \<in> set (workers s)"
      using set_update_subset_insert [of "workers s" i w] by auto
    then show ?thesis using w ch inv by (auto simp: control_inv_def)
  qed
  have ne: "workers s \<noteq> [] \<Longrightarrow> (workers s)[i := w] \<noteq> []" by simp
  show ?thesis
    using inv nr same ex ne by (auto simp: control_inv_def)
qed

lemma control_inv_step:
  assumes "step e a s = Some s'" "control_inv s"
  shows "control_inv s'"
  using assms(1)
proof (cases rule: step_cases)
  case (Send c)
  with assms(2) show ?thesis
    by (auto simp: control_inv_def)
next
  case Check
  with assms(2) show ?thesis by (auto simp: control_inv_def)
next
  case (Stop r n cl er u' er')
  with assms(2) show ?thesis by (auto simp: control_inv_def nextReader_cfg)
next
  case (Next r n cl er u' er')
  with assms(2) show ?thesis by (auto simp: control_inv_def nextReader_cfg)
next
  case Close
  with assms(2) show ?thesis by (auto simp: control_inv_def)
next
  case Finish
  with assms(2) show ?thesis
    by (cases rule: finish_cases [where s = s and e = e])
       (auto simp: fail_fields control_inv_def)
next
  case (Recv i c rest)
  with assms(2) show ?thesis
    by (intro control_inv_worker [of s i "Holding c" s']) (auto simp: control_inv_def)
next
  case (Exit i)
  with assms(2) show ?thesis
    by (intro control_inv_worker [of s i Exited s']) (auto simp: control_inv_def)
next
  case (CheckOk i c eTag)
  with assms(2) show ?thesis
    by (intro control_inv_worker [of s i "Cleaning c" s']) (auto simp: control_inv_def)
next
  case (CheckBad i c eTag)
  with assms(2) show ?thesis
    by (intro control_inv_worker [of s i "Cleaning c" s']) (auto simp: control_inv_def)
next
  case (ToUpload i c)
  with assms(2) show ?thesis
    by (intro control_inv_worker [of s i "Uploading c" s']) (auto simp: control_inv_def)
next
  case (Skip i c)
  with assms(2) show ?thesis
    by (intro control_inv_worker [of s i "Cleaning c" s']) (auto simp: control_inv_def)
next
  case (UploadOk i c eTag)
  with assms(2) show ?thesis
    by (intro control_inv_worker [of s i "Cleaning c" s']) (auto simp: control_inv_def)
next
  case (UploadBad i c er)
  with assms(2) show ?thesis
    by (intro control_inv_worker [of s i "Cleaning c" s']) (auto simp: control_inv_def)
next
  case (Clean i c)
  with assms(2) show ?thesis
    by (intro control_inv_worker [of s i Receiving s']) (auto simp: control_inv_def)
qed

text \<open>Once \<open>upload\<close> has returned, nothing moves.\<close>

lemma returned_final:
  assumes "control_inv s" "has_returned (main s)"
  shows "step e a s = None"
proof (rule ccontr)
  assume "step e a s \<noteq> None"
  then obtain s' where "step e a s = Some s'" by auto
  then show False
  proof (cases rule: step_cases)
    case (Recv i c rest)
    with assms show ?thesis by (auto simp: control_inv_def list_all_length)
  next
    case (Exit i)
    with assms show ?thesis by (auto simp: control_inv_def list_all_length)
  next
    case (CheckOk i c eTag)
    with assms show ?thesis by (auto simp: control_inv_def list_all_length)
  next
    case (CheckBad i c eTag)
    with assms show ?thesis by (auto simp: control_inv_def list_all_length)
  next
    case (ToUpload i c)
    with assms show ?thesis by (auto simp: control_inv_def list_all_length)
  next
    case (Skip i c)
    with assms show ?thesis by (auto simp: control_inv_def list_all_length)
  next
    case (UploadOk i c eTag)
    with assms show ?thesis by (auto simp: control_inv_def list_all_length)
  next
    case (UploadBad i c er)
    with assms show ?thesis by (auto simp: control_inv_def list_all_length)
  next
    case (Clean i c)
    with assms show ?thesis by (auto simp: control_inv_def list_all_length)
  qed (use assms in auto)
qed

lemma in_update_cases:
  "x \<in> set (ws[i := w]) \<Longrightarrow> x = w \<or> x \<in> set ws"
  using set_update_subset_insert [of ws i w] by auto

lemma sends_inv_worker:
  assumes inv: "sends_inv s" and i: "i < length (workers s)"
    and w: "\<forall>c \<in> set (held w). c \<in> set (held (workers s ! i)) \<or> c \<in> set (ch s)"
    and up: "\<forall>c. w = Uploading c \<longrightarrow> eTagByPartNumber s (num c) = None"
    and same: "main s' = main s" "set (ch s') \<subseteq> set (ch s)" "pnum s' = pnum s"
      "eTagByPartNumber s' = eTagByPartNumber s" "workers s' = (workers s)[i := w]"
    and calls: "\<forall>x \<in> set (calls s'). x \<in> set (calls s) \<or>
       (\<exists>c. workers s ! i = Uploading c \<and> x = UploadPart_call (uploadID s) (num c) (buf c))"
  shows "sends_inv s'"
proof -
  have nth: "\<And>c. c \<in> set (held (workers s ! i)) \<Longrightarrow> c \<in> set (pending s)"
    using i by (auto simp: pending_def intro: bexI [of _ "workers s ! i"])
  have p: "\<And>c. c \<in> set (pending s') \<Longrightarrow> c \<in> set (pending s)"
  proof -
    fix c assume "c \<in> set (pending s')"
    then have "c \<in> set (sending (main s)) \<or> c \<in> set (ch s) \<or> c \<in> set (held w)
        \<or> c \<in> set (concat (map held (workers s)))"
      using same by (auto simp: pending_def dest: in_update_cases)
    then show "c \<in> set (pending s)" using w nth by (auto simp: pending_def)
  qed
  have u: "\<And>c. Uploading c \<in> set (workers s') \<Longrightarrow> eTagByPartNumber s (num c) = None"
    using same up inv by (auto simp: sends_inv_def dest: in_update_cases)
  have c: "\<And>uid n b. UploadPart_call uid n b \<in> set (calls s') \<Longrightarrow>
      1 \<le> n \<and> n \<le> pnum s \<and> eTagByPartNumber s n = None"
  proof -
    fix uid n b assume "UploadPart_call uid n b \<in> set (calls s')"
    with calls have "UploadPart_call uid n b \<in> set (calls s) \<or>
       (\<exists>c. workers s ! i = Uploading c \<and> n = num c)" by auto
    then show "1 \<le> n \<and> n \<le> pnum s \<and> eTagByPartNumber s n = None"
    proof
      assume "UploadPart_call uid n b \<in> set (calls s)"
      with inv show ?thesis unfolding sends_inv_def by blast
    next
      assume "\<exists>c. workers s ! i = Uploading c \<and> n = num c"
      then obtain c where c: "workers s ! i = Uploading c" "n = num c" by auto
      with i have "Uploading c \<in> set (workers s)" by (metis nth_mem)
      moreover from c nth have "c \<in> set (pending s)" by simp
      ultimately show ?thesis using inv c by (simp add: sends_inv_def)
    qed
  qed
  show ?thesis
    unfolding sends_inv_def using p u c same inv by (auto simp: sends_inv_def)
qed

lemma sends_inv_step:
  assumes "step e a s = Some s'" "sends_inv s" "parts_inv s"
  shows "sends_inv s'"
  using assms(1)
proof (cases rule: step_cases)
  case (Send c)
  with assms(2) show ?thesis by (auto simp: sends_inv_def pending_def)
next
  case Check
  with assms(2) show ?thesis by (auto simp: sends_inv_def pending_def)
next
  case (Stop r n cl er u' er')
  with assms(2) show ?thesis by (auto simp: sends_inv_def pending_def)
next
  case (Next r n cl er u' er')
  from assms(3) have p: "1 \<le> pnum s" "pnum s \<le> MaxUploadParts" by (simp_all add: parts_inv_def)
  then have "- (2 ^ 31) \<le> pnum s" "pnum s < 2 ^ 31 - 1" by (simp_all add: MaxUploadParts_def)
  with Next(4) have sc: "int32 (pnum s + 1) = pnum s + 1"
    using shouldContinue_True by blast
  have pend: "pending s' = \<lparr>buf = r, num = pnum s + 1, cleanup = cl\<rparr> # pending s"
    using Next sc by (simp add: pending_def)
  have a: "\<forall>c \<in> set (pending s'). 1 \<le> num c \<and> num c \<le> pnum s + 1"
    using assms(2) p unfolding pend sends_inv_def by fastforce
  have b: "\<forall>uid n b. UploadPart_call uid n b \<in> set (calls s) \<longrightarrow>
        1 \<le> n \<and> n \<le> pnum s + 1 \<and> eTagByPartNumber s n = None"
    using assms(2) unfolding sends_inv_def by fastforce
  have c: "\<forall>c. Uploading c \<in> set (workers s) \<longrightarrow> eTagByPartNumber s (num c) = None"
    using assms(2) unfolding sends_inv_def by blast
  have d: "pnum s' = pnum s + 1" "workers s' = workers s" "calls s' = calls s"
    "eTagByPartNumber s' = eTagByPartNumber s"
    using Next sc by simp_all
  show ?thesis unfolding sends_inv_def d using a b c by blast
next
  case Close
  with assms(2) show ?thesis by (auto simp: sends_inv_def pending_def)
next
  case Finish
  have "calls (fail e t) = calls t \<or> calls (fail e t) = calls t @ [AbortMultipartUpload_call (uploadID t)]" for t
    by (rule fail_calls)
  with Finish assms(2) show ?thesis
    by (cases rule: finish_cases [where s = s and e = e])
       (auto simp: fail_fields sends_inv_def pending_def fail_def)
next
  case (Recv i c rest)
  with assms(2) show ?thesis
    by (intro sends_inv_worker [of s i "Holding c" s']) auto
next
  case (Exit i)
  with assms(2) show ?thesis
    by (intro sends_inv_worker [of s i Exited s']) auto
next
  case (CheckOk i c eTag)
  with assms(2) show ?thesis
    by (intro sends_inv_worker [of s i "Cleaning c" s']) auto
next
  case (CheckBad i c eTag)
  with assms(2) show ?thesis
    by (intro sends_inv_worker [of s i "Cleaning c" s']) auto
next
  case (ToUpload i c)
  with assms(2) show ?thesis
    by (intro sends_inv_worker [of s i "Uploading c" s']) auto
next
  case (Skip i c)
  with assms(2) show ?thesis
    by (intro sends_inv_worker [of s i "Cleaning c" s']) auto
next
  case (UploadOk i c eTag)
  with assms(2) show ?thesis
    by (intro sends_inv_worker [of s i "Cleaning c" s']) auto
next
  case (UploadBad i c er)
  with assms(2) show ?thesis
    by (intro sends_inv_worker [of s i "Cleaning c" s']) auto
next
  case (Clean i c)
  with assms(2) show ?thesis
    by (intro sends_inv_worker [of s i Receiving s']) auto
qed

lemma sorted_manifest:
  assumes "mset (map PartNumber ps) = mset [1..N]"
  shows "map PartNumber (sort_key PartNumber ps) = [1..N]"
proof -
  have "sorted (map PartNumber (sort_key PartNumber ps))" by (rule sorted_sort_key)
  moreover have "mset (map PartNumber (sort_key PartNumber ps)) = mset [1..N]"
    using assms by simp
  ultimately have "sort [1..N] = map PartNumber (sort_key PartNumber ps)"
    by (rule properties_for_sort [rotated])
  then show ?thesis by (simp add: sorted_sort_id)
qed

lemma pending_at_end:
  assumes "control_inv s" "main s = Waiting" "list_all (\<lambda>w. w = Exited) (workers s)"
  shows "pending s = []"
proof -
  from assms(1,2) have "workers s \<noteq> []" by (simp add: control_inv_def)
  with assms(3) have "Exited \<in> set (workers s)"
    by (cases "workers s") simp_all
  with assms(1) have "ch s = []" by (simp add: control_inv_def)
  moreover have "concat (map held (workers s)) = []"
    using assms(3) by (auto simp: list_all_iff)
  ultimately show ?thesis using assms(2) by (simp add: pending_def)
qed

lemma result_inv_step:
  assumes "step e a s = Some s'" "result_inv s" "control_inv s" "parts_inv s"
  shows "result_inv s'"
proof -
  have nr: "\<not> has_returned (main s)"
    using returned_final [OF assms(3), of e a] assms(1) by auto
  from assms(1) show ?thesis
  proof (cases rule: step_cases)
    case Finish
    show ?thesis
    proof (cases rule: finish_cases [where s = s and e = e])
      case (Failed er)
      with Finish show ?thesis by (simp add: result_inv_def fail_fields)
    next
      case (CompleteFailed er)
      with Finish show ?thesis by (simp add: result_inv_def fail_fields)
    next
      case (Completed v)
      have "pending s = []" using assms(3) Finish(2,3) by (rule pending_at_end)
      with assms(4) Completed(1)
      have "mset (map PartNumber (parts s)) = mset [1..pnum s]" by (simp add: parts_inv_def)
      then have "map PartNumber (sort_key PartNumber (parts s)) = [1..pnum s]"
        by (rule sorted_manifest)
      with Finish Completed show ?thesis by (simp add: result_inv_def)
    qed
  qed (use nr in \<open>auto simp: result_inv_def\<close>)
qed

lemma inv_all_step: "step e a s = Some s' \<Longrightarrow> inv_all s \<Longrightarrow> inv_all s'"
  by (simp add: inv_all_def control_inv_step parts_inv_step sends_inv_step result_inv_step)

lemma inv_all_exec: "inv_all s \<Longrightarrow> inv_all (exec e sched s)"
  by (rule exec_invariant [where P = inv_all]) (simp_all add: inv_all_step)

section \<open>The start of the goroutines\<close>

lemma paginate_shape:
  "paginate e pages s = (r, s') \<Longrightarrow>
     s' = s\<lparr>eTagByPartNumber := eTagByPartNumber s', location := location s', calls := calls s'\<rparr>
     \<and> (\<exists>k \<le> length pages. calls s' = calls s @ replicate k (ListParts_call (uploadID s))
          \<and> location s' = WrapClient (location s) (concat (map fst (take k pages))))"
proof (induction pages arbitrary: s)
  case Nil
  then show ?case by (auto simp: WrapClient_def)
next
  case (Cons p pages)
  obtain xs res where p: "p = (xs, res)" by (cases p)
  let ?s1 = "s\<lparr>location := WrapClient (location s) xs,
                calls := calls s @ [ListParts_call (uploadID s)]\<rparr>"
  have one: "calls ?s1 = calls s @ replicate 1 (ListParts_call (uploadID s))
      \<and> location ?s1 = WrapClient (location s) (concat (map fst (take 1 (p # pages))))"
    using p by simp
  show ?case
  proof (cases res)
    case (Inl er)
    with Cons.prems p have "s' = ?s1" by (simp add: Let_def)
    with one show ?thesis by (intro conjI exI [of _ 1]) simp_all
  next
    case (Inr ps)
    show ?thesis
    proof (cases "recordParts e ps (eTagByPartNumber s)")
      case (Inl er)
      with Cons.prems p Inr have "s' = ?s1" by (simp add: Let_def)
      with one show ?thesis by (intro conjI exI [of _ 1]) simp_all
    next
      case rp: (Inr rm)
      obtain repeat m where rm: "rm = (repeat, m)" by (cases rm)
      show ?thesis
      proof (cases repeat)
        case True
        with Cons.prems p Inr rp rm have "s' = ?s1\<lparr>eTagByPartNumber := m\<rparr>"
          by (simp add: Let_def)
        with one show ?thesis by (intro conjI exI [of _ 1]) simp_all
      next
        case False
        with Cons.prems p Inr rp rm
        have rec: "paginate e pages (?s1\<lparr>eTagByPartNumber := m\<rparr>) = (r, s')"
          by (simp add: Let_def)
        from Cons.IH [OF rec] obtain k where k: "k \<le> length pages"
          and sh: "s' = ?s1\<lparr>eTagByPartNumber := eTagByPartNumber s', location := location s',
                           calls := calls s'\<rparr>"
          and cs: "calls s' = (calls s @ [ListParts_call (uploadID s)]) @
                      replicate k (ListParts_call (uploadID s))"
          and loc: "location s' = WrapClient (WrapClient (location s) xs)
                      (concat (map fst (take k pages)))"
          by auto
        have "calls s' = calls s @ replicate (Suc k) (ListParts_call (uploadID s))"
          using cs by simp
        moreover have "location s' =
            WrapClient (location s) (concat (map fst (take (Suc k) (p # pages))))"
          using loc p by (simp add: WrapClient_def)
        moreover have "s' = s\<lparr>eTagByPartNumber := eTagByPartNumber s',
            location := location s', calls := calls s'\<rparr>"
          by (subst sh) simp
        ultimately show ?thesis using k by (intro conjI exI [of _ "Suc k"]) simp_all
      qed
    qed
  qed
qed

lemma create_shape:
  "create e cl s = (None, s') \<Longrightarrow>
     s' = s\<lparr>uploadID := uploadID s', location := location s', calls := calls s'\<rparr>
     \<and> calls s' = calls s @ [CreateMultipartUpload_call]
     \<and> location s' = WrapClient (location s) (fst (CreateMultipartUpload e))
     \<and> snd (CreateMultipartUpload e) = Inr (Some (uploadID s'))"
  by (auto simp: create_def Let_def split: sum.splits option.splits)

text \<open>The state in which the goroutines start.\<close>

lemma mu_upload_Started:
  assumes "mu_upload e u b cl = Started s0"
  shows "s0 = (mu_init u b cl)\<lparr>uploadID := uploadID s0,
                 eTagByPartNumber := eTagByPartNumber s0, location := location s0,
                 calls := calls s0\<rparr>
       \<and> (case existingUploadID u of
           None \<Rightarrow> calls s0 = [CreateMultipartUpload_call]
             \<and> location s0 = WrapClient [] (fst (CreateMultipartUpload e))
             \<and> snd (CreateMultipartUpload e) = Inr (Some (uploadID s0))
         | Some uid \<Rightarrow> uploadID s0 = uid \<and> (\<exists>k \<le> length (ListParts e).
               calls s0 = replicate k (ListParts_call uid)
             \<and> location s0 = WrapClient [] (concat (map fst (take k (ListParts e))))))"
proof (cases "existingUploadID u")
  case None
  with assms have "create e cl (mu_init u b cl) = (None, s0)"
    by (auto simp: mu_upload_def split: prod.splits option.splits if_splits)
  note cs = create_shape [OF this]
  have eq: "s0 = (mu_init u b cl)\<lparr>uploadID := uploadID s0, location := location s0,
                   calls := calls s0\<rparr>"
    using cs by blast
  have rest: "calls s0 = [CreateMultipartUpload_call]"
      "location s0 = WrapClient [] (fst (CreateMultipartUpload e))"
      "snd (CreateMultipartUpload e) = Inr (Some (uploadID s0))"
    using cs [THEN conjunct2] by (simp_all add: mu_init_def)
  have "eTagByPartNumber s0 = Map.empty" by (subst eq) (simp add: mu_init_def)
  then have "s0 = (mu_init u b cl)\<lparr>uploadID := uploadID s0,
                 eTagByPartNumber := eTagByPartNumber s0, location := location s0,
                 calls := calls s0\<rparr>"
    by (subst eq) (simp add: mu_init_def)
  with rest None show ?thesis by simp
next
  case (Some uid)
  with assms have p: "paginate e (ListParts e) ((mu_init u b cl)\<lparr>uploadID := uid\<rparr>) = (None, s0)"
    by (auto simp: mu_upload_def split: prod.splits option.splits if_splits)
  note ps = paginate_shape [OF p]
  have eq: "s0 = (mu_init u b cl)\<lparr>uploadID := uid, eTagByPartNumber := eTagByPartNumber s0,
             location := location s0, calls := calls s0\<rparr>"
    using ps [THEN conjunct1] by simp
  have rest: "\<exists>k \<le> length (ListParts e).
               calls s0 = replicate k (ListParts_call uid)
             \<and> location s0 = WrapClient [] (concat (map fst (take k (ListParts e))))"
    using ps [THEN conjunct2] by (simp add: mu_init_def)
  have uid: "uploadID s0 = uid" by (subst eq) simp
  have "s0 = (mu_init u b cl)\<lparr>uploadID := uploadID s0,
                 eTagByPartNumber := eTagByPartNumber s0, location := location s0,
                 calls := calls s0\<rparr>"
    unfolding uid by (rule eq)
  with rest uid Some show ?thesis by simp
qed

lemma held_replicate_Receiving: "concat (map held (replicate n Receiving)) = []"
  by (induction n) simp_all

lemma inv_all_start:
  assumes "mu_upload e u b cl = Started s0"
  shows "inv_all s0"
proof -
  from mu_upload_Started [OF assms]
  have eq: "s0 = (mu_init u b cl)\<lparr>uploadID := uploadID s0,
                 eTagByPartNumber := eTagByPartNumber s0, location := location s0,
                 calls := calls s0\<rparr>"
    and cs: "\<forall>x \<in> set (calls s0). x = CreateMultipartUpload_call \<or> (\<exists>uid. x = ListParts_call uid)"
    by (auto split: option.splits)
  have f: "main s0 = Sending \<lparr>buf = b, num = 1, cleanup = cl\<rparr>" "ch s0 = []" "\<not> chClosed s0"
    "workers s0 = replicate (nat (Concurrency (cfg u))) Receiving" "up s0 = u"
    "pnum s0 = 1" "err s0 = None" "parts s0 = []"
    by (subst eq, simp add: mu_init_def)+
  have "control_inv s0" using f by (simp add: control_inv_def)
  moreover have "parts_inv s0"
    using f by (simp add: parts_inv_def pending_def held_replicate_Receiving MaxUploadParts_def)
  moreover have "sends_inv s0"
    using f cs by (auto simp: sends_inv_def pending_def held_replicate_Receiving)
  moreover have "result_inv s0" using f by (simp add: result_inv_def)
  ultimately show ?thesis by (simp add: inv_all_def)
qed

lemma init_existingUploadID: "init u = Inr u' \<Longrightarrow> existingUploadID u' = existingUploadID u"
  by (auto simp: init_def initSize_def Let_def split: option.splits sum.splits if_splits)

text \<open>\<open>upload\<close> starts the goroutines only through \<open>multiuploader.upload\<close>, after \<open>init\<close>
  and a first read that met neither the end of the stream nor an error.\<close>

lemma upload_Started:
  assumes "upload e u = Started s0"
  obtains u1 u2 b n cl where "init u = Inr u1" "MinUploadPartSize \<le> PartSize (cfg u1)"
    "nextReader e u1 = ((b, n, cl, None), u2)" "mu_upload e u2 b cl = Started s0"
    "existingUploadID u2 = existingUploadID u"
proof -
  from assms obtain u1 where u1: "init u = Inr u1" "MinUploadPartSize \<le> PartSize (cfg u1)"
    by (auto simp: upload_def split: sum.splits if_splits)
  obtain b n cl er u2 where nr: "nextReader e u1 = ((b, n, cl, er), u2)"
    by (cases "nextReader e u1") auto
  with assms u1 have "er = None" "mu_upload e u2 b cl = Started s0"
    by (auto simp: upload_def singlePart_def split: option.splits prod.splits sum.splits if_splits)
  moreover have "existingUploadID u2 = existingUploadID u"
    using nr u1 by (simp add: nextReader_existingUploadID init_existingUploadID)
  ultimately show ?thesis using u1 nr that by blast
qed

lemma reachable_inv:
  assumes "upload e u = Started s0"
  shows "inv_all (exec e sched s0)"
proof -
  from assms obtain u2 b cl where "mu_upload e u2 b cl = Started s0"
    by (auto elim: upload_Started)
  then have "inv_all s0" by (rule inv_all_start)
  then show ?thesis by (rule inv_all_exec)
qed

lemma exec_frame:
  "uploadID (exec e sched s) = uploadID s \<and> eTagByPartNumber (exec e sched s) = eTagByPartNumber s
     \<and> location (exec e sched s) = location s \<and> cfg (up (exec e sched s)) = cfg (up s)"
  by (rule exec_invariant [where P = "\<lambda>t. uploadID t = uploadID s
       \<and> eTagByPartNumber t = eTagByPartNumber s \<and> location t = location s
       \<and> cfg (up t) = cfg (up s)"]) (auto dest: step_frame)

lemma exec_err_mono: "err s \<noteq> None \<Longrightarrow> err (exec e sched s) \<noteq> None"
  by (rule exec_invariant [where P = "\<lambda>t. err t \<noteq> None"]) (auto dest: step_err_mono)

section \<open>The parts of a body of known length\<close>











section \<open>The cleanup closures of a started upload\<close>

lemma owns_update_same:
  "i < length ws \<Longrightarrow> owns (ws ! i) = owns w \<Longrightarrow>
     concat (map owns (ws[i := w])) = concat (map owns ws)"
  by (simp add: map_update list_update_same_conv [THEN iffD2])

lemma owns_update_take:
  assumes "i < length ws" "owns (ws ! i) = []"
  shows "mset (concat (map owns (ws[i := w]))) = mset (owns w) + mset (concat (map owns ws))"
  using mset_concat_update [OF assms(1), of owns w] assms(2) by (simp add: ac_simps)

lemma owns_update_drop:
  assumes "i < length ws" "owns w = []"
  shows "mset (concat (map owns ws)) = mset (owns (ws ! i)) + mset (concat (map owns (ws[i := w])))"
  using mset_concat_update [OF assms(1), of owns w] assms(2) by (simp add: ac_simps)

lemma cleanup_inv_step:
  assumes "step e a s = Some s'" "cleanup_inv k s"
  shows "cleanup_inv k s'"
  using assms(1)
proof (cases rule: step_cases)
  case (Send c)
  with assms(2) show ?thesis by (simp add: cleanup_inv_def owned_def ac_simps)
next
  case Check
  with assms(2) show ?thesis by (simp add: cleanup_inv_def owned_def)
next
  case (Stop r n cl er u' er')
  from nextReader_nreads [OF Stop(3)] Stop assms(2) show ?thesis
    by (simp add: cleanup_inv_def owned_def ac_simps)
next
  case (Next r n cl er u' er')
  from nextReader_nreads [OF Next(3)] Next assms(2) show ?thesis
    by (simp add: cleanup_inv_def owned_def ac_simps)
next
  case Close
  with assms(2) show ?thesis by (simp add: cleanup_inv_def owned_def)
next
  case Finish
  with assms(2) show ?thesis
    by (cases rule: finish_cases [where s = s and e = e])
       (simp_all add: fail_fields cleanup_inv_def owned_def)
next
  case (Recv i c rest)
  with assms(2) show ?thesis
    by (simp add: cleanup_inv_def owned_def owns_update_take ac_simps)
next
  case (Exit i)
  with assms(2) show ?thesis by (simp add: cleanup_inv_def owned_def owns_update_same)
next
  case (CheckOk i c eTag)
  with assms(2) show ?thesis by (simp add: cleanup_inv_def owned_def owns_update_same)
next
  case (CheckBad i c eTag)
  with assms(2) show ?thesis by (simp add: cleanup_inv_def owned_def owns_update_same)
next
  case (ToUpload i c)
  with assms(2) show ?thesis by (simp add: cleanup_inv_def owned_def owns_update_same)
next
  case (Skip i c)
  with assms(2) show ?thesis by (simp add: cleanup_inv_def owned_def owns_update_same)
next
  case (UploadOk i c eTag)
  with assms(2) show ?thesis by (simp add: cleanup_inv_def owned_def owns_update_same)
next
  case (UploadBad i c er)
  with assms(2) show ?thesis by (simp add: cleanup_inv_def owned_def owns_update_same)
next
  case (Clean i c)
  with owns_update_drop [of i "workers s" Receiving] assms(2) show ?thesis
    by (simp add: cleanup_inv_def owned_def ac_simps)
qed

lemma init_nreads: "init u = Inr u1 \<Longrightarrow> nreads u1 = nreads u"
  by (auto simp: init_def initSize_def Let_def split: option.splits sum.splits if_splits)

lemma owns_replicate_Receiving: "concat (map owns (replicate n Receiving)) = []"
  by (induction n) simp_all

lemma cleanup_inv_start:
  assumes "upload e u = Started s0"
  shows "cleanup_inv (nreads u) s0"
proof -
  from assms obtain u1 u2 b n cl where i: "init u = Inr u1"
    and nr: "nextReader e u1 = ((b, n, cl, None), u2)"
    and mu: "mu_upload e u2 b cl = Started s0"
    by (rule upload_Started)
  from mu_upload_Started [OF mu]
  have eq: "s0 = (mu_init u2 b cl)\<lparr>uploadID := uploadID s0,
                 eTagByPartNumber := eTagByPartNumber s0, location := location s0,
                 calls := calls s0\<rparr>" by simp
  have f: "up s0 = u2" "cleaned s0 = []" "main s0 = Sending \<lparr>buf = b, num = 1, cleanup = cl\<rparr>"
    "ch s0 = []" "workers s0 = replicate (nat (Concurrency (cfg u2))) Receiving"
    by (subst eq, simp add: mu_init_def)+
  from nextReader_nreads [OF nr] init_nreads [OF i]
  have "cl = nreads u" "nreads u2 = Suc (nreads u)" by simp_all
  with f show ?thesis
    by (simp add: cleanup_inv_def owned_def owns_replicate_Receiving)
qed

text \<open>When an upload whose goroutines have started returns, every cleanup closure that
  \<open>nextReader\<close> has returned has been invoked exactly once.\<close>

lemma cleanup_once_after_start:
  assumes up: "upload e u = Started s0" and ret: "has_returned (main (exec e sched s0))"
  shows "mset (cleaned (exec e sched s0)) = mset [nreads u..<nreads (up (exec e sched s0))]"
proof -
  let ?s = "exec e sched s0"
  have "cleanup_inv (nreads u) ?s"
    by (rule exec_invariant [where P = "cleanup_inv (nreads u)"])
       (use up in \<open>auto intro: cleanup_inv_start cleanup_inv_step\<close>)
  moreover have c: "control_inv ?s" using reachable_inv [OF up, of sched] by (simp add: inv_all_def)
  have "owned ?s = []"
  proof -
    have sn: "sending (main ?s) = []" using ret by (cases "main ?s") simp_all
    with c ret have ex: "list_all (\<lambda>w. w = Exited) (workers ?s)" "workers ?s \<noteq> []"
      by (simp_all add: control_inv_def)
    then have "Exited \<in> set (workers ?s)" by (cases "workers ?s") simp_all
    with c have "ch ?s = []" by (simp add: control_inv_def)
    moreover have "concat (map owns (workers ?s)) = []" using ex(1) by (auto simp: list_all_iff)
    ultimately show ?thesis using sn by (simp add: owned_def)
  qed
  ultimately show ?thesis by (simp add: cleanup_inv_def)
qed

section \<open>Further facts about runs\<close>

lemma run_append: "run e (xs @ ys) st = run e ys (run e xs st)"
  by (cases st) (simp_all add: exec_append)

lemma strict_upto: "sorted_wrt (<) [1..N::int]"
  by (simp add: strict_sorted_iff)

lemma run_Started:
  assumes "run e sched (upload e u) = Started s"
  obtains s0 where "upload e u = Started s0" "s = exec e sched s0"
  using assms by (cases "upload e u") auto

lemma shouldContinue_limit:
  assumes "er = None \<or> er = Some EOF" "n \<noteq> 0" "1 \<le> p" "p \<le> MaxUploadParts"
    and "min (cfgMaxUploadParts c) MaxUploadParts < p + 1"
  shows "shouldContinue c p n er =
     (False, Some (Errorf
        (if cfgMaxUploadParts c < p + 1
         then ''exceeded total allowed configured MaxUploadParts ('' @
              fmt_d (cfgMaxUploadParts c) @ ''). Adjust PartSize to fit in this limit''
         else ''exceeded total allowed S3 limit MaxUploadParts (10000). Adjust PartSize to fit in this limit'')
        None))"
proof -
  have "int32 (p + 1) = p + 1" using assms(3,4) by (simp add: int32_id MaxUploadParts_def)
  then show ?thesis
    using assms(1,2,5) by (auto simp: shouldContinue_def Let_def fmt_d_MaxUploadParts)
qed

text \<open>Once the producer has left its loop it sends nothing more.\<close>

lemma left_loop_step:
  assumes "step e a t = Some t'" "main t = Closing \<or> main t = Waiting \<or> has_returned (main t)"
  shows "(main t' = Closing \<or> main t' = Waiting \<or> has_returned (main t'))
       \<and> pnum t' = pnum t \<and> length (ch t') \<le> length (ch t)"
  using assms(1)
proof (cases rule: step_cases)
  case Finish
  then show ?thesis
    by (cases rule: finish_cases [where s = t and e = e]) (simp_all add: fail_fields)
qed (use assms(2) in auto)

lemma left_loop_exec:
  assumes "main t = Closing \<or> main t = Waiting \<or> has_returned (main t)"
  shows "sending (main (exec e sched t)) = [] \<and> pnum (exec e sched t) = pnum t
       \<and> length (ch (exec e sched t)) \<le> length (ch t)"
proof -
  have "(main (exec e sched t) = Closing \<or> main (exec e sched t) = Waiting
          \<or> has_returned (main (exec e sched t)))
       \<and> pnum (exec e sched t) = pnum t \<and> length (ch (exec e sched t)) \<le> length (ch t)"
    by (rule exec_invariant [where P = "\<lambda>x. (main x = Closing \<or> main x = Waiting
          \<or> has_returned (main x)) \<and> pnum x = pnum t \<and> length (ch x) \<le> length (ch t)"])
       (use assms in \<open>auto dest: left_loop_step\<close>)
  then show ?thesis by (cases "main (exec e sched t)") auto
qed

lemma failed_result:
  assumes "inv_all t" "err t \<noteq> None" "main (exec e sched t) = Returned res"
  shows "\<exists>x. res = Inl x"
proof -
  have "inv_all (exec e sched t)" using assms(1) by (rule inv_all_exec)
  then have "result_inv (exec e sched t)" by (simp add: inv_all_def)
  moreover have "err (exec e sched t) \<noteq> None" using assms(2) by (rule exec_err_mono)
  ultimately show ?thesis using assms(3) by (cases res) (auto simp: result_inv_def)
qed

lemma observed_append: "observed (xs @ ys) = observed xs @ observed ys"
  by (induction xs rule: observed.induct) simp_all

lemma WrapClient_last:
  "WrapClient loc xs =
     (if observed xs = [] then loc else BeforeQuery (last (observed xs)))"
proof (induction xs rule: rev_induct)
  case Nil
  then show ?case by (simp add: WrapClient_def)
next
  case (snoc x xs)
  show ?case
  proof (cases x)
    case (RoundTripErr er)
    with snoc show ?thesis by (simp add: WrapClient_def observed_append)
  next
    case (RoundTrip uo)
    with snoc show ?thesis
      by (cases uo) (simp_all add: WrapClient_def URL_String_def observed_append)
  qed
qed

lemma Upload_eq_ResumeUpload: "Upload e c b opts = ResumeUpload e c b None opts"
  by (simp add: Upload_def ResumeUpload_def)

lemma upload_small_PartSize:
  assumes "init u = Inr u'" "PartSize (cfg u') < MinUploadPartSize"
  shows "upload e u = Finished (Inl (Errorf ''part size must be at least 5242880 bytes'' None)) [] []"
  using assms by (simp add: upload_def fmt_d_MinUploadPartSize)

text \<open>The definitions that evaluate a run on the examples.\<close>

lemma five_workers: "replicate 5 (w::worker) = [w, w, w, w, w]"
  by (simp add: eval_nat_numeral)

lemmas const_defs = MaxUploadParts_def MinUploadPartSize_def DefaultUploadPartSize_def
  DefaultUploadConcurrency_def

lemmas upload_defs = Upload_def ResumeUpload_def uploadWithSingleUploader_def upload_def
  init_def initSize_def nextReader_def SectionReader_def mu_upload_def mu_init_def create_def
  singlePart_def WrapClient_def URL_String_def quo_def int64_def int32_def Let_def

lemmas step_defs = geterr_def seterr_def completePart_def check_def send_def
  shouldContinue_def fail_def complete_def finish_def fmt_d_def digits.simps digit_char_def
  five_workers

lemmas example_defs = NewUploader_def bytes_Reader_def quoted_def unquote_plain_def
  object_url_def store_ok_def store_mismatch_def store_denied_def store_unlisted_def
  store_slow_def two_parts_def both_taken_def the_rest_def

lemmas run_defs = const_defs upload_defs step_defs example_defs

lemma init_small:
  "init \<lparr>cfg = fold (\<lambda>opt c. opt c) [\<lambda>c. c\<lparr>PartSize := 1024\<rparr>] NewUploader,
          body = bytes_Reader 10, existingUploadID = None,
          readerPos = 0, totalSize = 0, nreads = 0\<rparr>
   = Inr \<lparr>cfg = NewUploader\<lparr>PartSize := 1024\<rparr>,
          body = bytes_Reader 10, existingUploadID = None,
          readerPos = 0, totalSize = 10, nreads = 0\<rparr>"
  by (simp add: run_defs)

section \<open>The claims\<close>

text \<open>
  Claim C1. When an upload that went down the multi-part path returns an output, the
  last request it issued is \<open>CompleteMultipartUpload\<close> for its session, and the part
  numbers of the manifest are 1, 2, ..., \<open>N\<close> in this order for some \<open>N \<ge> 1\<close>: exactly the
  set \<open>{1..N}\<close>, strictly ascending. This holds for every schedule of the goroutines,
  every store and every input.
\<close>

theorem manifest_part_numbers:
  assumes "started (upload e u)"
    and "returned (run e sched (upload e u)) = Some (Inr out)"
  shows "\<exists>cs m N. 1 \<le> N
       \<and> issued (run e sched (upload e u)) =
           cs @ [CompleteMultipartUpload_call (OutUploadID out) m]
       \<and> map PartNumber m = [1..N]
       \<and> set (map PartNumber m) = {1..N}
       \<and> sorted_wrt (<) (map PartNumber m)"
proof -
  from assms(1) obtain s0 where s0: "upload e u = Started s0" by (cases "upload e u") auto
  let ?s = "exec e sched s0"
  have inv: "inv_all ?s" using s0 by (rule reachable_inv)
  from assms(2) s0 have ret: "main ?s = Returned (Inr out)"
    by (simp split: producer.splits)
  from inv ret obtain cs where cs: "calls ?s = cs @ [CompleteMultipartUpload_call (uploadID ?s) (parts ?s)]"
    and m: "map PartNumber (parts ?s) = [1..pnum ?s]" and o: "OutUploadID out = uploadID ?s"
    by (auto simp: inv_all_def result_inv_def)
  from inv have N: "1 \<le> pnum ?s" by (simp add: inv_all_def parts_inv_def)
  show ?thesis
    using cs m o N s0
    by (intro exI [of _ cs] exI [of _ "parts ?s"] exI [of _ "pnum ?s"])
       (simp add: strict_upto)
qed

text \<open>An upload of 5 MiB and one byte: two parts, the second completed first.\<close>

theorem manifest_part_numbers_witness:
  "started (Upload store_ok NewUploader (bytes_Reader 5242881) [])
   \<and> returned (run store_ok two_parts (Upload store_ok NewUploader (bytes_Reader 5242881) [])) =
       Some (Inr \<lparr>Location = ''https://bucket.s3.amazonaws.com/key'', VersionID = Some ''v1'',
                  OutUploadID = ''U''\<rparr>)
   \<and> (\<exists>cs m N. 1 \<le> N
       \<and> issued (run store_ok two_parts (Upload store_ok NewUploader (bytes_Reader 5242881) [])) =
           cs @ [CompleteMultipartUpload_call ''U'' m]
       \<and> map PartNumber m = [1..N]
       \<and> set (map PartNumber m) = {1..N}
       \<and> sorted_wrt (<) (map PartNumber m))"
proof -
  let ?u = "\<lparr>cfg = NewUploader, body = bytes_Reader 5242881, existingUploadID = None,
              readerPos = 0, totalSize = 0, nreads = 0\<rparr>"
  let ?out = "\<lparr>Location = ''https://bucket.s3.amazonaws.com/key'', VersionID = Some ''v1'',
                OutUploadID = ''U''\<rparr>"
  have up: "Upload store_ok NewUploader (bytes_Reader 5242881) [] = upload store_ok ?u"
    by (simp add: Upload_def uploadWithSingleUploader_def)
  have st: "started (upload store_ok ?u)" by (simp add: run_defs)
  have ret: "returned (run store_ok two_parts (upload store_ok ?u)) = Some (Inr ?out)"
    by (simp add: run_defs)
  from manifest_part_numbers [OF st ret] st ret show ?thesis
    unfolding up by simp
qed

text \<open>
  Claim C2. A worker that holds a chunk whose part number is in \<open>eTagByPartNumber\<close>
  compares the digest of the chunk's bytes with the stored ETag: when they are equal it
  appends the part number with the stored ETag to the completed parts, when they differ
  it records the checksum error for that chunk; either way it issues no request. The
  map holds, for a part listed by \<open>ListParts\<close>, what \<open>strconv.Unquote\<close> makes of its ETag.
  Every \<open>UploadPart\<close> request of a run is for a part number, between 1 and the last
  number given out, that the map does not hold; so a run in which the map holds every
  number given out issues no \<open>UploadPart\<close> request.
\<close>

theorem resume_check_skips_upload:
  shows "(eTagByPartNumber s (num c) = Some eTag \<longrightarrow>
           worker_step e (Holding c) s =
             Some (Cleaning c,
                   if md5hex e (buf c) = eTag
                   then s\<lparr>parts := parts s @ [\<lparr>ETag = Some eTag, PartNumber = num c\<rparr>]\<rparr>
                   else s\<lparr>err := Some (Errorf (''checksum did not match for chunk '' @
                          fmt_d (num c) @
                          '', multipart upload out of sync with local file'') None)\<rparr>))
       \<and> (m n = None \<and> Unquote e q = Inr eTag \<longrightarrow>
             recordParts e ((n, Some q) # ps) m = recordParts e ps (m(n \<mapsto> eTag)))
       \<and> (started (upload e u) \<longrightarrow>
            (\<forall>uid n b. UploadPart_call uid n b \<in> set (issued (run e sched (upload e u))) \<longrightarrow>
               found (upload e u) n = None
               \<and> 1 \<le> n \<and> n \<le> numbered (run e sched (upload e u))))
       \<and> (started (upload e u)
            \<and> (\<forall>n. 1 \<le> n \<and> n \<le> numbered (run e sched (upload e u))
                  \<longrightarrow> found (upload e u) n \<noteq> None) \<longrightarrow>
            (\<forall>uid n b. UploadPart_call uid n b \<notin> set (issued (run e sched (upload e u)))))"
proof -
  have a: "eTagByPartNumber s (num c) = Some eTag \<Longrightarrow>
           worker_step e (Holding c) s =
             Some (Cleaning c,
                   if md5hex e (buf c) = eTag
                   then s\<lparr>parts := parts s @ [\<lparr>ETag = Some eTag, PartNumber = num c\<rparr>]\<rparr>
                   else s\<lparr>err := Some (Errorf (''checksum did not match for chunk '' @
                          fmt_d (num c) @
                          '', multipart upload out of sync with local file'') None)\<rparr>)"
    by (simp add: check_def completePart_def seterr_def)
  have b: "m n = None \<and> Unquote e q = Inr eTag \<Longrightarrow>
             recordParts e ((n, Some q) # ps) m = recordParts e ps (m(n \<mapsto> eTag))"
    by simp
  have c: "found (upload e u) n = None \<and> 1 \<le> n \<and> n \<le> numbered (run e sched (upload e u))"
    if st: "started (upload e u)"
      and call: "UploadPart_call uid n b \<in> set (issued (run e sched (upload e u)))"
    for uid n b
  proof -
    from st obtain s0 where s0: "upload e u = Started s0" by (cases "upload e u") auto
    let ?s = "exec e sched s0"
    have "inv_all ?s" using s0 by (rule reachable_inv)
    then have "sends_inv ?s" by (simp add: inv_all_def)
    moreover from call s0 have "UploadPart_call uid n b \<in> set (calls ?s)" by simp
    ultimately have "1 \<le> n \<and> n \<le> pnum ?s \<and> eTagByPartNumber ?s n = None"
      unfolding sends_inv_def by blast
    moreover have "eTagByPartNumber ?s = eTagByPartNumber s0" by (simp add: exec_frame)
    ultimately show ?thesis using s0 by simp
  qed
  from a b c show ?thesis by blast
qed

text \<open>A session with both parts of the body already stored: the check passes for each,
  and resuming issues no \<open>UploadPart\<close> request.\<close>

theorem resume_check_skips_upload_witness:
  "worker_step store_ok (Holding \<lparr>buf = ''abc'', num = 1, cleanup = 0\<rparr>)
      ((mu_init \<lparr>cfg = NewUploader, body = bytes_Reader 10485760, existingUploadID = Some ''U'',
                 readerPos = 5242880, totalSize = 10485760, nreads = 1\<rparr> ''abc'' 0)
         \<lparr>eTagByPartNumber := [1 \<mapsto> ''d0'']\<rparr>)
     = Some (Cleaning \<lparr>buf = ''abc'', num = 1, cleanup = 0\<rparr>,
        (mu_init \<lparr>cfg = NewUploader, body = bytes_Reader 10485760, existingUploadID = Some ''U'',
                 readerPos = 5242880, totalSize = 10485760, nreads = 1\<rparr> ''abc'' 0)
         \<lparr>eTagByPartNumber := [1 \<mapsto> ''d0''],
           parts := [\<lparr>ETag = Some ''d0'', PartNumber = 1\<rparr>]\<rparr>)
   \<and> recordParts store_ok [(1, Some (quoted ''d0''))] Map.empty = Inr (False, [1 \<mapsto> ''d0''])
   \<and> found (ResumeUpload store_ok NewUploader (bytes_Reader 10485760) (Some ''U'') []) 2 = Some ''d0''
   \<and> numbered (run store_ok two_parts
         (ResumeUpload store_ok NewUploader (bytes_Reader 10485760) (Some ''U'') [])) = 2
   \<and> (\<forall>uid n b. UploadPart_call uid n b \<notin> set (issued (run store_ok two_parts
         (ResumeUpload store_ok NewUploader (bytes_Reader 10485760) (Some ''U'') []))))"
proof -
  let ?u = "\<lparr>cfg = NewUploader, body = bytes_Reader 10485760, existingUploadID = Some ''U'',
              readerPos = 0, totalSize = 0, nreads = 0\<rparr>"
  let ?s = "(mu_init \<lparr>cfg = NewUploader, body = bytes_Reader 10485760,
                existingUploadID = Some ''U'', readerPos = 5242880, totalSize = 10485760,
                nreads = 1\<rparr> ''abc'' 0)\<lparr>eTagByPartNumber := [1 \<mapsto> ''d0'']\<rparr>"
  let ?c = "\<lparr>buf = ''abc'', num = 1, cleanup = 0\<rparr>"
  have up: "ResumeUpload store_ok NewUploader (bytes_Reader 10485760) (Some ''U'') [] =
      upload store_ok ?u"
    by (simp add: ResumeUpload_def uploadWithSingleUploader_def)
  have st: "started (upload store_ok ?u)" by (simp add: run_defs)
  have nb: "numbered (run store_ok two_parts (upload store_ok ?u)) = 2" by (simp add: run_defs)
  have fd: "found (upload store_ok ?u) = [1 \<mapsto> ''d0'', 2 \<mapsto> ''d0'']" by (simp add: run_defs)
  have all: "\<forall>n. 1 \<le> n \<and> n \<le> numbered (run store_ok two_parts (upload store_ok ?u))
               \<longrightarrow> found (upload store_ok ?u) n \<noteq> None"
    unfolding nb fd by auto
  have h1: "eTagByPartNumber ?s (num ?c) = Some ''d0''" by simp
  have md: "md5hex store_ok (buf ?c) = ''d0''" by (simp add: store_ok_def)
  have h2: "Map.empty (1::int) = None \<and> Unquote store_ok (quoted ''d0'') = Inr ''d0''"
    by (simp add: store_ok_def unquote_plain_def quoted_def)
  note inst = resume_check_skips_upload [of ?s ?c "''d0''" store_ok Map.empty 1 "quoted ''d0''"
      "[]" ?u two_parts]
  from inst h1 md have a: "worker_step store_ok (Holding ?c) ?s =
      Some (Cleaning ?c, ?s\<lparr>parts := parts ?s @ [\<lparr>ETag = Some ''d0'', PartNumber = num ?c\<rparr>]\<rparr>)"
    by simp
  from inst h2 have b: "recordParts store_ok [(1, Some (quoted ''d0''))] Map.empty =
      recordParts store_ok [] [1 \<mapsto> ''d0'']" by blast
  from inst st all
  have d: "\<forall>uid n b. UploadPart_call uid n b \<notin> set (issued (run store_ok two_parts (upload store_ok ?u)))"
    by blast
  from a have a': "worker_step store_ok (Holding ?c) ?s =
      Some (Cleaning ?c, ?s\<lparr>parts := [\<lparr>ETag = Some ''d0'', PartNumber = 1\<rparr>]\<rparr>)"
    by (simp add: mu_init_def)
  show ?thesis
    unfolding up using a' b d nb fd by simp
qed

text \<open>
  Claim C3. The producer is about to read, in a state some schedule reaches; the next
  chunk is not empty and comes without a read error, and its number would exceed the
  configured \<open>MaxUploadParts\<close> or 10000. Then the producer's step runs the chunk's
  cleanup, records the limit error and leaves the loop without sending the chunk. The
  message names the configured value when the number exceeds it, and 10000 otherwise.
  From then on no chunk is sent or numbered, and if the upload returns, it returns an
  error.
\<close>

theorem part_limit_error:
  assumes run: "run e sched (upload e u) = Started s"
    and rd: "main s = Reading"
    and nr: "nextReader e (up s) = ((r, n, cl, er), u')"
    and n: "n \<noteq> 0" and er: "er = None \<or> er = Some EOF"
    and lim: "min (cfgMaxUploadParts (cfg (up s))) MaxUploadParts < pnum s + 1"
  shows "\<exists>msg s'. step e Producer s = Some s'
       \<and> s' = s\<lparr>up := u', err := Some (Errorf msg None), perr := Some (Errorf msg None),
                 main := Closing, cleaned := cleaned s @ [cl]\<rparr>
       \<and> msg = (if cfgMaxUploadParts (cfg (up s)) < pnum s + 1
                 then ''exceeded total allowed configured MaxUploadParts ('' @
                      fmt_d (cfgMaxUploadParts (cfg (up s))) @
                      ''). Adjust PartSize to fit in this limit''
                 else ''exceeded total allowed S3 limit MaxUploadParts (10000). Adjust PartSize to fit in this limit'')
       \<and> (\<forall>sched'. sending (main (exec e sched' s')) = []
              \<and> pnum (exec e sched' s') = pnum s
              \<and> length (ch (exec e sched' s')) \<le> length (ch s)
              \<and> (\<forall>res. main (exec e sched' s') = Returned res \<longrightarrow> (\<exists>x. res = Inl x)))"
proof -
  from run obtain s0 where s0: "upload e u = Started s0" "s = exec e sched s0"
    by (rule run_Started)
  then have inv: "inv_all s" by (simp add: reachable_inv)
  then have p: "1 \<le> pnum s" "pnum s \<le> MaxUploadParts" by (simp_all add: inv_all_def parts_inv_def)
  define msg where "msg = (if cfgMaxUploadParts (cfg (up s)) < pnum s + 1
                 then ''exceeded total allowed configured MaxUploadParts ('' @
                      fmt_d (cfgMaxUploadParts (cfg (up s))) @
                      ''). Adjust PartSize to fit in this limit''
                 else ''exceeded total allowed S3 limit MaxUploadParts (10000). Adjust PartSize to fit in this limit'')"
  define s' where "s' = s\<lparr>up := u', err := Some (Errorf msg None), perr := Some (Errorf msg None),
                 main := Closing, cleaned := cleaned s @ [cl]\<rparr>"
  have sc: "shouldContinue (cfg (up s)) (pnum s) n er = (False, Some (Errorf msg None))"
    unfolding msg_def using er n p lim by (rule shouldContinue_limit)
  have st: "step e Producer s = Some s'"
    using rd nr sc by (simp add: s'_def seterr_def)
  have inv': "inv_all s'" using st inv by (rule inv_all_step)
  have after: "sending (main (exec e sched' s')) = []
              \<and> pnum (exec e sched' s') = pnum s
              \<and> length (ch (exec e sched' s')) \<le> length (ch s)
              \<and> (\<forall>res. main (exec e sched' s') = Returned res \<longrightarrow> (\<exists>x. res = Inl x))" for sched'
  proof -
    have "main s' = Closing \<or> main s' = Waiting \<or> has_returned (main s')" by (simp add: s'_def)
    from left_loop_exec [OF this, of e sched']
    have "sending (main (exec e sched' s')) = [] \<and> pnum (exec e sched' s') = pnum s
       \<and> length (ch (exec e sched' s')) \<le> length (ch s)" by (simp add: s'_def)
    moreover have "err s' \<noteq> None" by (simp add: s'_def)
    with inv' have "\<forall>res. main (exec e sched' s') = Returned res \<longrightarrow> (\<exists>x. res = Inl x)"
      by (blast dest: failed_result)
    ultimately show ?thesis by simp
  qed
  show ?thesis
    using st after by (intro exI [of _ msg] exI [of _ s']) (simp add: s'_def msg_def)
qed

text \<open>A sequential stream of two blocks of 5 MiB with \<open>MaxUploadParts\<close> set to 1: the
  producer queues part 1, reads the second block and records the limit error.\<close>

theorem part_limit_error_witness:
  "register (run store_ok [Producer, Producer]
      (Upload store_ok NewUploader
         (Reader [(replicate 5242880 CHR ''a'', None), (replicate 5242880 CHR ''b'', None)])
         [\<lambda>c. c\<lparr>cfgMaxUploadParts := 1\<rparr>])) = None
   \<and> register (run store_ok [Producer, Producer, Producer]
      (Upload store_ok NewUploader
         (Reader [(replicate 5242880 CHR ''a'', None), (replicate 5242880 CHR ''b'', None)])
         [\<lambda>c. c\<lparr>cfgMaxUploadParts := 1\<rparr>])) =
       Some (Errorf ''exceeded total allowed configured MaxUploadParts (1). Adjust PartSize to fit in this limit'' None)
   \<and> invoked (run store_ok [Producer, Producer, Producer]
      (Upload store_ok NewUploader
         (Reader [(replicate 5242880 CHR ''a'', None), (replicate 5242880 CHR ''b'', None)])
         [\<lambda>c. c\<lparr>cfgMaxUploadParts := 1\<rparr>])) = [1]
   \<and> numbered (run store_ok [Producer, Producer, Producer]
      (Upload store_ok NewUploader
         (Reader [(replicate 5242880 CHR ''a'', None), (replicate 5242880 CHR ''b'', None)])
         [\<lambda>c. c\<lparr>cfgMaxUploadParts := 1\<rparr>])) = 1"
proof -
  let ?b = "Reader [(replicate 5242880 CHR ''a'', None), (replicate 5242880 CHR ''b'', None)]"
  let ?u = "\<lparr>cfg = NewUploader\<lparr>cfgMaxUploadParts := 1\<rparr>, body = ?b, existingUploadID = None,
              readerPos = 0, totalSize = 0, nreads = 0\<rparr>"
  let ?r = "replicate 5242880 CHR ''b''"
  have up: "Upload store_ok NewUploader ?b [\<lambda>c. c\<lparr>cfgMaxUploadParts := 1\<rparr>] = upload store_ok ?u"
    by (simp add: Upload_def uploadWithSingleUploader_def)
  have "\<exists>s. run store_ok [Producer, Producer] (upload store_ok ?u) = Started s
      \<and> main s = Reading \<and> cfgMaxUploadParts (cfg (up s)) = 1 \<and> pnum s = 1 \<and> err s = None
      \<and> cleaned s = []
      \<and> nextReader store_ok (up s) =
           ((?r, 5242880, 1, None), (up s)\<lparr>nreads := 2, readerPos := 10485760, body := Reader []\<rparr>)"
    by (simp add: run_defs)
  then obtain s where run: "run store_ok [Producer, Producer] (upload store_ok ?u) = Started s"
    and rd: "main s = Reading"
    and cf: "cfgMaxUploadParts (cfg (up s)) = 1" "pnum s = 1" "err s = None" "cleaned s = []"
    and nr: "nextReader store_ok (up s) =
           ((?r, 5242880, 1, None), (up s)\<lparr>nreads := 2, readerPos := 10485760, body := Reader []\<rparr>)"
    by blast
  have lim: "min (cfgMaxUploadParts (cfg (up s))) MaxUploadParts < pnum s + 1"
    using cf by (simp add: MaxUploadParts_def)
  from part_limit_error [OF run rd nr _ _ lim]
  obtain msg s' where st: "step store_ok Producer s = Some s'"
    and s': "s' = s\<lparr>up := (up s)\<lparr>nreads := 2, readerPos := 10485760, body := Reader []\<rparr>,
                 err := Some (Errorf msg None), perr := Some (Errorf msg None),
                 main := Closing, cleaned := cleaned s @ [1]\<rparr>"
    and msg: "msg = (if cfgMaxUploadParts (cfg (up s)) < pnum s + 1
                 then ''exceeded total allowed configured MaxUploadParts ('' @
                      fmt_d (cfgMaxUploadParts (cfg (up s))) @
                      ''). Adjust PartSize to fit in this limit''
                 else ''exceeded total allowed S3 limit MaxUploadParts (10000). Adjust PartSize to fit in this limit'')"
    by auto
  have m: "msg = ''exceeded total allowed configured MaxUploadParts (1). Adjust PartSize to fit in this limit''"
    using msg cf by (simp add: fmt_d_def digits.simps digit_char_def)
  have "run store_ok [Producer, Producer, Producer] (upload store_ok ?u) =
      run store_ok [Producer] (run store_ok [Producer, Producer] (upload store_ok ?u))"
    using run_append [of store_ok "[Producer, Producer]" "[Producer]"] by simp
  also have "\<dots> = Started s'" unfolding run using st by simp
  finally have r3: "run store_ok [Producer, Producer, Producer] (upload store_ok ?u) = Started s'" .
  have "register (Started s') = Some (Errorf msg None)" "invoked (Started s') = [1]"
    "numbered (Started s') = 1"
    using s' cf by simp_all
  with cf m show ?thesis
    unfolding up r3 run by simp
qed

text \<open>
  Claim C4 as stated (the register is written once, the first error wins) fails. A
  session is resumed with two parts whose digests both differ from the listed ones.
  Worker 0 records the error for chunk 1; then worker 1, which took chunk 2 before,
  checks it without looking at the register and records the error for chunk 2. The
  register now holds the second error, and that is the one returned.
\<close>

theorem first_error_is_overwritten:
  "register (run store_mismatch both_taken
       (ResumeUpload store_mismatch NewUploader (bytes_Reader 10485760) (Some ''U'') [])) =
     Some (Errorf ''checksum did not match for chunk 1, multipart upload out of sync with local file'' None)
   \<and> register (run store_mismatch (both_taken @ the_rest)
       (ResumeUpload store_mismatch NewUploader (bytes_Reader 10485760) (Some ''U'') [])) =
     Some (Errorf ''checksum did not match for chunk 2, multipart upload out of sync with local file'' None)
   \<and> returned (run store_mismatch (both_taken @ the_rest)
       (ResumeUpload store_mismatch NewUploader (bytes_Reader 10485760) (Some ''U'') [])) =
     Some (Inl (multiUploadError
       (Some (Errorf ''checksum did not match for chunk 2, multipart upload out of sync with local file'' None))
       ''U''))"
  by (simp add: run_defs)

text \<open>
  Claim C4, as amended. \<open>seterr\<close> overwrites: after it the register holds the error
  just recorded, whatever it held before. Once an error is recorded the register is never
  empty again. The error a multi-part upload returns is a \<open>multiUploadError\<close> around
  the content of the register at the end, which is the error recorded last.
\<close>

theorem error_register_last_wins:
  shows "err (seterr x s) = Some x
       \<and> (started (upload e u) \<and> register (run e sched (upload e u)) \<noteq> None \<longrightarrow>
            register (run e (sched @ sched') (upload e u)) \<noteq> None)
       \<and> (started (upload e u) \<and> returned (run e sched (upload e u)) = Some (Inl y) \<longrightarrow>
            (\<exists>cause. register (run e sched (upload e u)) = Some cause
               \<and> y = multiUploadError (Some cause) (session (upload e u))))"
proof -
  have a: "err (seterr x s) = Some x" by (simp add: seterr_def)
  have b: "register (run e (sched @ sched') (upload e u)) \<noteq> None"
    if "register (run e sched (upload e u)) \<noteq> None"
    using that by (cases "upload e u") (simp_all add: exec_append exec_err_mono)
  have c: "\<exists>cause. register (run e sched (upload e u)) = Some cause
               \<and> y = multiUploadError (Some cause) (session (upload e u))"
    if st: "started (upload e u)" and ret: "returned (run e sched (upload e u)) = Some (Inl y)"
  proof -
    from st obtain s0 where s0: "upload e u = Started s0" by (cases "upload e u") auto
    let ?s = "exec e sched s0"
    have "inv_all ?s" using s0 by (rule reachable_inv)
    then have "result_inv ?s" by (simp add: inv_all_def)
    moreover from ret s0 have "main ?s = Returned (Inl y)" by (simp split: producer.splits)
    ultimately obtain er where "err ?s = Some er" "y = multiUploadError (Some er) (uploadID ?s)"
      unfolding result_inv_def by blast
    moreover have "uploadID ?s = uploadID s0" by (simp add: exec_frame)
    ultimately show ?thesis using s0 by simp
  qed
  from a b c show ?thesis by blast
qed

text \<open>An upload whose parts the store refuses: the register is set, stays set, and
  the error returned wraps its content.\<close>

theorem error_register_last_wins_witness:
  "err (seterr (Opaque ''SlowDown'')
         (mu_init \<lparr>cfg = NewUploader, body = bytes_Reader 10485760, existingUploadID = None,
                    readerPos = 5242880, totalSize = 10485760, nreads = 1\<rparr> ''abc'' 0)) =
     Some (Opaque ''SlowDown'')
   \<and> register (run store_slow (two_parts @ [Producer])
        (Upload store_slow NewUploader (bytes_Reader 10485760) [])) \<noteq> None
   \<and> (\<exists>cause. register (run store_slow two_parts
                   (Upload store_slow NewUploader (bytes_Reader 10485760) [])) = Some cause
        \<and> multiUploadError (Some (Opaque ''SlowDown'')) ''U'' =
            multiUploadError (Some cause)
              (session (Upload store_slow NewUploader (bytes_Reader 10485760) [])))"
proof -
  let ?u = "\<lparr>cfg = NewUploader, body = bytes_Reader 10485760, existingUploadID = None,
              readerPos = 0, totalSize = 0, nreads = 0\<rparr>"
  have up: "Upload store_slow NewUploader (bytes_Reader 10485760) [] = upload store_slow ?u"
    by (simp add: Upload_def uploadWithSingleUploader_def)
  have st: "started (upload store_slow ?u)" by (simp add: run_defs)
  have reg: "register (run store_slow two_parts (upload store_slow ?u)) \<noteq> None"
    by (simp add: run_defs)
  have ret: "returned (run store_slow two_parts (upload store_slow ?u)) =
      Some (Inl (multiUploadError (Some (Opaque ''SlowDown'')) ''U''))"
    by (simp add: run_defs)
  from error_register_last_wins [of "Opaque ''SlowDown''" _ store_slow ?u two_parts "[Producer]"
      "multiUploadError (Some (Opaque ''SlowDown'')) ''U''"] st reg ret
  show ?thesis unfolding up by blast
qed

text \<open>
  Claim C5 as stated (every error of an upload on the multi-part path satisfies
  \<open>MultiUploadFailure\<close>) fails. When \<open>CreateMultipartUpload\<close> fails there is no session:
  \<open>multiuploader.upload\<close> runs the cleanup of the first chunk and returns the error of the
  store as it is.
\<close>

theorem create_error_is_unwrapped:
  "returned (run store_denied [] (Upload store_denied NewUploader (bytes_Reader 10485760) [])) =
     Some (Inl (Opaque ''AccessDenied''))
   \<and> issued (run store_denied [] (Upload store_denied NewUploader (bytes_Reader 10485760) [])) =
     [CreateMultipartUpload_call]
   \<and> UploadID (Opaque ''AccessDenied'') = None"
  by (simp add: run_defs)

text \<open>
  Claim C5, as amended. When the session has been acquired (the goroutines have
  started: \<open>CreateMultipartUpload\<close> succeeded, or \<open>ListParts\<close> for the session to resume)
  and the upload returns an error, the error satisfies \<open>MultiUploadFailure\<close> and its
  \<open>UploadID()\<close> is the session: the one to resume, or the one the store created.
\<close>

theorem multipart_failure_has_UploadID:
  assumes "started (upload e u)"
    and "returned (run e sched (upload e u)) = Some (Inl x)"
  shows "UploadID x = Some (session (upload e u))
       \<and> (case existingUploadID u of
             Some uid \<Rightarrow> session (upload e u) = uid
           | None \<Rightarrow> snd (CreateMultipartUpload e) = Inr (Some (session (upload e u))))"
proof -
  from assms(1) obtain s0 where s0: "upload e u = Started s0" by (cases "upload e u") auto
  let ?s = "exec e sched s0"
  have "inv_all ?s" using s0 by (rule reachable_inv)
  then have "result_inv ?s" by (simp add: inv_all_def)
  moreover from assms(2) s0 have "main ?s = Returned (Inl x)" by (simp split: producer.splits)
  ultimately obtain er where "x = multiUploadError (Some er) (uploadID ?s)"
    unfolding result_inv_def by blast
  moreover have "uploadID ?s = uploadID s0" by (simp add: exec_frame)
  ultimately have 1: "UploadID x = Some (session (upload e u))" using s0 by simp
  from s0 obtain u2 b cl where mu: "mu_upload e u2 b cl = Started s0"
    and ex: "existingUploadID u2 = existingUploadID u"
    by (auto elim: upload_Started)
  from mu_upload_Started [OF mu] ex s0
  have "case existingUploadID u of
             Some uid \<Rightarrow> session (upload e u) = uid
           | None \<Rightarrow> snd (CreateMultipartUpload e) = Inr (Some (session (upload e u)))"
    by (auto split: option.splits)
  with 1 show ?thesis by simp
qed

text \<open>A fresh upload whose parts the store refuses.\<close>

theorem multipart_failure_has_UploadID_witness:
  "returned (run store_slow two_parts (Upload store_slow NewUploader (bytes_Reader 10485760) [])) =
     Some (Inl (multiUploadError (Some (Opaque ''SlowDown'')) ''U''))
   \<and> UploadID (multiUploadError (Some (Opaque ''SlowDown'')) ''U'') =
       Some (session (Upload store_slow NewUploader (bytes_Reader 10485760) []))
   \<and> snd (CreateMultipartUpload store_slow) =
       Inr (Some (session (Upload store_slow NewUploader (bytes_Reader 10485760) [])))"
proof -
  let ?u = "\<lparr>cfg = NewUploader, body = bytes_Reader 10485760, existingUploadID = None,
              readerPos = 0, totalSize = 0, nreads = 0\<rparr>"
  have up: "Upload store_slow NewUploader (bytes_Reader 10485760) [] = upload store_slow ?u"
    by (simp add: Upload_def uploadWithSingleUploader_def)
  have st: "started (upload store_slow ?u)" by (simp add: run_defs)
  have ret: "returned (run store_slow two_parts (upload store_slow ?u)) =
      Some (Inl (multiUploadError (Some (Opaque ''SlowDown'')) ''U''))"
    by (simp add: run_defs)
  from multipart_failure_has_UploadID [OF st ret] ret show ?thesis
    unfolding up by simp
qed

text \<open>
  Claim C6 (every cleanup closure that \<open>nextReader\<close> returns is invoked exactly once)
  fails on one path. A session is resumed and the first \<open>ListParts\<close> request fails:
  \<open>nextReader\<close> has returned the first chunk with the closure 0, and
  \<open>multiuploader.upload\<close> returns the error without invoking it. On the sibling path,
  where \<open>CreateMultipartUpload\<close> fails, the closure is invoked before the return, and
  once the goroutines have started every closure is invoked exactly once
  (\<open>cleanup_once_after_start\<close>).
\<close>

theorem ListParts_error_skips_cleanup:
  "(\<exists>u1 u2 b n. init \<lparr>cfg = NewUploader, body = bytes_Reader 10485760,
                           existingUploadID = Some ''U'', readerPos = 0, totalSize = 0,
                           nreads = 0\<rparr> = Inr u1
        \<and> nextReader store_unlisted u1 = ((b, n, 0, None), u2))
   \<and> returned (run store_unlisted []
       (ResumeUpload store_unlisted NewUploader (bytes_Reader 10485760) (Some ''U'') [])) =
     Some (Inl (Opaque ''RequestTimeout''))
   \<and> issued (run store_unlisted []
       (ResumeUpload store_unlisted NewUploader (bytes_Reader 10485760) (Some ''U'') [])) =
     [ListParts_call ''U'']
   \<and> invoked (run store_unlisted []
       (ResumeUpload store_unlisted NewUploader (bytes_Reader 10485760) (Some ''U'') [])) = []
   \<and> invoked (run store_denied []
       (Upload store_denied NewUploader (bytes_Reader 10485760) [])) = [0]"
  by (simp add: run_defs)

text \<open>
  Claim C7. When \<open>init\<close> succeeds and leaves a \<open>PartSize\<close> below 5 MiB, \<open>ResumeUpload\<close>
  and \<open>Upload\<close> return the error "part size must be at least 5242880 bytes" at once:
  no request has been issued and no cleanup invoked.
\<close>

theorem small_PartSize_is_rejected:
  assumes "init \<lparr>cfg = fold (\<lambda>opt c. opt c) opts c, body = b, existingUploadID = uid,
                  readerPos = 0, totalSize = 0, nreads = 0\<rparr> = Inr u'"
    and "PartSize (cfg u') < 5 * 1024 * 1024"
  shows "run e sched (ResumeUpload e c b uid opts) =
           Finished (Inl (Errorf ''part size must be at least 5242880 bytes'' None)) [] []
       \<and> (uid = None \<longrightarrow> run e sched (Upload e c b opts) =
           Finished (Inl (Errorf ''part size must be at least 5242880 bytes'' None)) [] [])"
proof -
  have "PartSize (cfg u') < MinUploadPartSize"
    using assms(2) by (simp add: MinUploadPartSize_def)
  with assms(1) have "ResumeUpload e c b uid opts =
      Finished (Inl (Errorf ''part size must be at least 5242880 bytes'' None)) [] []"
    by (simp add: ResumeUpload_def uploadWithSingleUploader_def upload_small_PartSize)
  then show ?thesis by (auto simp: Upload_eq_ResumeUpload)
qed

text \<open>A body of ten bytes with the part size set to 1024.\<close>

theorem small_PartSize_is_rejected_witness:
  "run store_ok [] (ResumeUpload store_ok NewUploader (bytes_Reader 10) None [\<lambda>c. c\<lparr>PartSize := 1024\<rparr>]) =
           Finished (Inl (Errorf ''part size must be at least 5242880 bytes'' None)) [] []
   \<and> run store_ok [] (Upload store_ok NewUploader (bytes_Reader 10) [\<lambda>c. c\<lparr>PartSize := 1024\<rparr>]) =
           Finished (Inl (Errorf ''part size must be at least 5242880 bytes'' None)) [] []"
  using small_PartSize_is_rejected [OF init_small, of store_ok "[]"]
  by simp



text \<open>
  Claim C9. When the first \<open>nextReader\<close> call reports the end of the stream, the upload
  issues \<open>PutObject\<close> with the reader of that call and nothing else, and invokes the
  cleanup once. It returns the error of \<open>PutObject\<close> as it is, or an output with an empty
  \<open>UploadID\<close>, the recorded location and the \<open>VersionId\<close> of the response.
\<close>

theorem single_part_upload:
  assumes "init u = Inr u1"
    and "MinUploadPartSize \<le> PartSize (cfg u1)"
    and "nextReader e u1 = ((r, n, cl, Some EOF), u2)"
  shows "issued (run e sched (upload e u)) = [PutObject_call r]
       \<and> invoked (run e sched (upload e u)) = [cl]
       \<and> returned (run e sched (upload e u)) =
           Some (case snd (PutObject e r) of
                   Inl er \<Rightarrow> Inl er
                 | Inr v \<Rightarrow> Inr \<lparr>Location = WrapClient [] (fst (PutObject e r)),
                                 VersionID = v, OutUploadID = []\<rparr>)"
  using assms
  by (cases "PutObject e r") (auto simp: upload_def singlePart_def split: sum.splits)

text \<open>The empty body: one \<open>PutObject\<close> with an empty reader.\<close>

theorem single_part_upload_witness:
  "issued (run store_ok [] (Upload store_ok NewUploader (bytes_Reader 0) [])) = [PutObject_call []]
   \<and> invoked (run store_ok [] (Upload store_ok NewUploader (bytes_Reader 0) [])) = [0]
   \<and> returned (run store_ok [] (Upload store_ok NewUploader (bytes_Reader 0) [])) =
       Some (Inr \<lparr>Location = ''https://bucket.s3.amazonaws.com/key'', VersionID = None,
                  OutUploadID = []\<rparr>)"
proof -
  let ?u = "\<lparr>cfg = NewUploader, body = bytes_Reader 0, existingUploadID = None,
              readerPos = 0, totalSize = 0, nreads = 0\<rparr>"
  let ?u1 = "\<lparr>cfg = NewUploader, body = bytes_Reader 0, existingUploadID = None,
              readerPos = 0, totalSize = 0, nreads = 0\<rparr>"
  let ?u2 = "\<lparr>cfg = NewUploader, body = bytes_Reader 0, existingUploadID = None,
              readerPos = 0, totalSize = 0, nreads = 1\<rparr>"
  have up: "Upload store_ok NewUploader (bytes_Reader 0) [] = upload store_ok ?u"
    by (simp add: Upload_def uploadWithSingleUploader_def)
  have i: "init ?u = Inr ?u1" by (simp add: run_defs)
  have p: "MinUploadPartSize \<le> PartSize (cfg ?u1)" by (simp add: run_defs)
  have nr: "nextReader store_ok ?u1 = (([], 0, 0, Some EOF), ?u2)" by (simp add: run_defs)
  from single_part_upload [OF i p nr, of "[]"] show ?thesis
    unfolding up by (simp add: run_defs)
qed

text \<open>
  Claim C10. The location of the output of a multi-part upload is the one recorded
  while the session was acquired: the URL before its query of the last round trip that
  reached the recorder, or empty when none did. For a fresh upload the round trips are
  those of \<open>CreateMultipartUpload\<close>, for a resumed upload those of the \<open>ListParts\<close>
  requests made. The round trips of \<open>UploadPart\<close> and \<open>CompleteMultipartUpload\<close> play no
  part.
\<close>

theorem location_is_of_session_acquisition:
  assumes "started (upload e u)"
    and "returned (run e sched (upload e u)) = Some (Inr out)"
  shows "\<exists>xs. Location out =
              (if observed xs = [] then [] else BeforeQuery (last (observed xs)))
       \<and> (case existingUploadID u of
             None \<Rightarrow> xs = fst (CreateMultipartUpload e)
                 \<and> issued (upload e u) = [CreateMultipartUpload_call]
           | Some uid \<Rightarrow>
               (\<exists>k \<le> length (ListParts e).
                  xs = concat (map fst (take k (ListParts e)))
                  \<and> issued (upload e u) = replicate k (ListParts_call uid)))"
proof -
  from assms(1) obtain s0 where s0: "upload e u = Started s0" by (cases "upload e u") auto
  let ?s = "exec e sched s0"
  have "inv_all ?s" using s0 by (rule reachable_inv)
  then have "result_inv ?s" by (simp add: inv_all_def)
  moreover from assms(2) s0 have "main ?s = Returned (Inr out)" by (simp split: producer.splits)
  ultimately have "Location out = location ?s" unfolding result_inv_def by blast
  then have loc: "Location out = location s0" by (simp add: exec_frame)
  from s0 obtain u2 b cl where mu: "mu_upload e u2 b cl = Started s0"
    and ex: "existingUploadID u2 = existingUploadID u"
    by (auto elim: upload_Started)
  show ?thesis
  proof (cases "existingUploadID u")
    case None
    with mu_upload_Started [OF mu] ex
    have "location s0 = WrapClient [] (fst (CreateMultipartUpload e))"
      "calls s0 = [CreateMultipartUpload_call]" by simp_all
    with loc None s0 show ?thesis
      by (intro exI [of _ "fst (CreateMultipartUpload e)"]) (simp add: WrapClient_last)
  next
    case (Some uid)
    with mu_upload_Started [OF mu] ex obtain k where k: "k \<le> length (ListParts e)"
      "calls s0 = replicate k (ListParts_call uid)"
      "location s0 = WrapClient [] (concat (map fst (take k (ListParts e))))" by auto
    with loc Some s0 show ?thesis
      by (intro exI [of _ "concat (map fst (take k (ListParts e)))"])
         (auto simp: WrapClient_last)
  qed
qed

text \<open>The upload of two parts: the location is that of the \<open>CreateMultipartUpload\<close>
  round trip, though \<open>CompleteMultipartUpload\<close> went to another URL.\<close>

theorem location_is_of_session_acquisition_witness:
  "returned (run store_ok two_parts (Upload store_ok NewUploader (bytes_Reader 5242881) [])) =
     Some (Inr \<lparr>Location = ''https://bucket.s3.amazonaws.com/key'', VersionID = Some ''v1'',
                OutUploadID = ''U''\<rparr>)
   \<and> issued (Upload store_ok NewUploader (bytes_Reader 5242881) []) = [CreateMultipartUpload_call]
   \<and> observed (fst (CreateMultipartUpload store_ok)) = [object_url ''uploads='']
   \<and> BeforeQuery (object_url ''uploads='') = ''https://bucket.s3.amazonaws.com/key''
   \<and> observed (fst (CompleteMultipartUpload store_ok ''U'' [])) =
       [\<lparr>BeforeQuery = ''https://s3.eu-west-1.amazonaws.com/bucket/key'', RawQuery = ''uploadId=U''\<rparr>]"
proof -
  let ?u = "\<lparr>cfg = NewUploader, body = bytes_Reader 5242881, existingUploadID = None,
              readerPos = 0, totalSize = 0, nreads = 0\<rparr>"
  let ?out = "\<lparr>Location = ''https://bucket.s3.amazonaws.com/key'', VersionID = Some ''v1'',
                OutUploadID = ''U''\<rparr>"
  have up: "Upload store_ok NewUploader (bytes_Reader 5242881) [] = upload store_ok ?u"
    by (simp add: Upload_def uploadWithSingleUploader_def)
  have st: "started (upload store_ok ?u)" by (simp add: run_defs)
  have ret: "returned (run store_ok two_parts (upload store_ok ?u)) = Some (Inr ?out)"
    by (simp add: run_defs)
  from location_is_of_session_acquisition [OF st ret]
  have "issued (upload store_ok ?u) = [CreateMultipartUpload_call]" by auto
  with ret show ?thesis
    unfolding up by (simp add: store_ok_def object_url_def)
qed

end
